theory Spec2Isabelle
  imports Complex_Main "HOL-Library.Word" "HOL-Library.AList"
begin

section \<open>Common Python values\<close>

text \<open>
  A Python \<open>str\<close> is a sequence of Unicode code points, a \<open>bytes\<close> object a sequence
  of 8-bit words. Exceptions are values: every \<open>raise\<close> of the modelled code is an
  \<open>Inl\<close> branch. Python floats are read as exact real numbers in the strategy and in
  the order manager (rounding of the binary arithmetic is not modelled).
\<close>

type_synonym pystr = "nat list"
type_synonym byte = "8 word"

datatype py_error =
    ConnectionError
  | JSONDecodeError
  | UnicodeDecodeError
  | UnicodeEncodeError
  | KeyError
  | TypeError
  | ValueError
  | ZeroDivisionError
  | StructError
  | OutOfFuel

definition ascii :: "string \<Rightarrow> pystr" where
  "ascii s = map of_char s"

text \<open>\<open>str(n)\<close> for a Python int: decimal digits, a leading minus sign when negative.\<close>

fun nat_digits :: "nat \<Rightarrow> pystr" where
  "nat_digits n = (if n < 10 then [48 + n] else nat_digits (n div 10) @ [48 + n mod 10])"

definition str_int :: "int \<Rightarrow> pystr" where
  "str_int i = (if i < 0 then 45 # nat_digits (nat (- i)) else nat_digits (nat i))"

text \<open>The value of a string of decimal digits, as \<open>int(text)\<close> reads it.\<close>

definition digits_value :: "pystr \<Rightarrow> nat" where
  "digits_value ds = foldl (\<lambda>a c. 10 * a + (c - 48)) 0 ds"

text \<open>\<open>int(x)\<close> for a float: truncation towards zero.\<close>

definition int_of_float :: "real \<Rightarrow> int" where
  "int_of_float x = (if 0 \<le> x then \<lfloor>x\<rfloor> else \<lceil>x\<rceil>)"


section \<open>JSON values and text (json.dumps, json.loads)\<close>

datatype json =
    JNull
  | JBool bool
  | JInt int
  | JFloat pystr
  | JStr pystr
  | JList "json list"
  | JDict "(pystr \<times> json) list"

subsection \<open>json.dumps\<close>

definition hexdigit :: "nat \<Rightarrow> nat" where
  "hexdigit d = (if d < 10 then 48 + d else 87 + d)"

definition hex4 :: "nat \<Rightarrow> pystr" where
  "hex4 n = [hexdigit (n div 4096 mod 16), hexdigit (n div 256 mod 16),
             hexdigit (n div 16 mod 16), hexdigit (n mod 16)]"

definition uescape :: "nat \<Rightarrow> pystr" where
  "uescape n = [92, 117] @ hex4 n"

definition escape_char :: "nat \<Rightarrow> pystr" where
  "escape_char c =
     (if c = 92 then [92, 92]
      else if c = 34 then [92, 34]
      else if c = 8 then [92, 98]
      else if c = 12 then [92, 102]
      else if c = 10 then [92, 110]
      else if c = 13 then [92, 114]
      else if c = 9 then [92, 116]
      else if 32 \<le> c \<and> c \<le> 126 then [c]
      else if c < 65536 then uescape c
      else let n = c - 65536
           in uescape (55296 + n div 1024 mod 1024) @ uescape (56320 + n mod 1024))"

definition encode_str :: "pystr \<Rightarrow> pystr" where
  "encode_str s = 34 # concat (map escape_char s) @ [34]"

fun dumps :: "json \<Rightarrow> pystr"
  and dumps_list :: "json list \<Rightarrow> pystr"
  and dumps_items :: "(pystr \<times> json) list \<Rightarrow> pystr" where
  "dumps JNull = ascii ''null''"
| "dumps (JBool b) = (if b then ascii ''true'' else ascii ''false'')"
| "dumps (JInt i) = str_int i"
| "dumps (JFloat t) = t"
| "dumps (JStr s) = encode_str s"
| "dumps (JList xs) = 91 # dumps_list xs @ [93]"
| "dumps (JDict kvs) = 123 # dumps_items kvs @ [125]"
| "dumps_list [] = []"
| "dumps_list [x] = dumps x"
| "dumps_list (x # y # ys) = dumps x @ [44, 32] @ dumps_list (y # ys)"
| "dumps_items [] = []"
| "dumps_items [(k, v)] = encode_str k @ [58, 32] @ dumps v"
| "dumps_items ((k, v) # kv # kvs) =
     encode_str k @ [58, 32] @ dumps v @ [44, 32] @ dumps_items (kv # kvs)"

subsection \<open>json.loads\<close>

definition is_ws :: "nat \<Rightarrow> bool" where
  "is_ws c = (c = 32 \<or> c = 9 \<or> c = 10 \<or> c = 13)"

definition skip_ws :: "pystr \<Rightarrow> pystr" where
  "skip_ws s = dropWhile is_ws s"

definition is_digit :: "nat \<Rightarrow> bool" where
  "is_digit c = (48 \<le> c \<and> c \<le> 57)"

definition hexval :: "nat \<Rightarrow> nat option" where
  "hexval c =
     (if 48 \<le> c \<and> c \<le> 57 then Some (c - 48)
      else if 97 \<le> c \<and> c \<le> 102 then Some (c - 87)
      else if 65 \<le> c \<and> c \<le> 70 then Some (c - 55)
      else None)"

definition decode_uXXXX :: "pystr \<Rightarrow> nat option" where
  "decode_uXXXX s =
     (case s of
        h1 # h2 # h3 # h4 # _ \<Rightarrow>
          (case (hexval h1, hexval h2, hexval h3, hexval h4) of
             (Some a, Some b, Some c, Some d) \<Rightarrow> Some (((a * 16 + b) * 16 + c) * 16 + d)
           | _ \<Rightarrow> None)
      | _ \<Rightarrow> None)"

definition backslash :: "nat \<Rightarrow> nat option" where
  "backslash e =
     (if e = 34 then Some 34
      else if e = 92 then Some 92
      else if e = 47 then Some 47
      else if e = 98 then Some 8
      else if e = 102 then Some 12
      else if e = 110 then Some 10
      else if e = 114 then Some 13
      else if e = 116 then Some 9
      else None)"

definition cons_char :: "nat \<Rightarrow> py_error + (pystr \<times> pystr) \<Rightarrow> py_error + (pystr \<times> pystr)" where
  "cons_char c res = (case res of Inl e \<Rightarrow> Inl e | Inr (s, r) \<Rightarrow> Inr (c # s, r))"

function scanstring :: "pystr \<Rightarrow> py_error + (pystr \<times> pystr)" where
  "scanstring [] = Inl JSONDecodeError"
| "scanstring (c # cs) =
     (if c = 34 then Inr ([], cs)
      else if c = 92 then
        (case cs of
           [] \<Rightarrow> Inl JSONDecodeError
         | e # r \<Rightarrow>
             if e = 117 then
               (case decode_uXXXX r of
                  None \<Rightarrow> Inl JSONDecodeError
                | Some uni \<Rightarrow>
                    if 55296 \<le> uni \<and> uni \<le> 56319 \<and> take 2 (drop 4 r) = [92, 117] then
                      (case decode_uXXXX (drop 6 r) of
                         None \<Rightarrow> Inl JSONDecodeError
                       | Some uni2 \<Rightarrow>
                           if 56320 \<le> uni2 \<and> uni2 \<le> 57343
                           then cons_char (65536 + ((uni - 55296) * 1024 + (uni2 - 56320)))
                                  (scanstring (drop 10 r))
                           else cons_char uni (scanstring (drop 4 r)))
                    else cons_char uni (scanstring (drop 4 r)))
             else (case backslash e of
                     None \<Rightarrow> Inl JSONDecodeError
                   | Some ch \<Rightarrow> cons_char ch (scanstring r)))
      else if c < 32 then Inl JSONDecodeError
      else cons_char c (scanstring cs))"
  by pat_completeness auto
termination
  by (relation "measure length") auto

definition match_int_part :: "pystr \<Rightarrow> (pystr \<times> pystr) option" where
  "match_int_part s =
     (let sg = (case s of [] \<Rightarrow> [] | c # cs \<Rightarrow> if c = 45 then [45] else []);
          s1 = drop (length sg) s
      in case s1 of
           [] \<Rightarrow> None
         | d # ds \<Rightarrow>
             if d = 48 then Some (sg @ [48], ds)
             else if is_digit d then Some (sg @ takeWhile is_digit s1, dropWhile is_digit s1)
             else None)"

definition match_frac :: "pystr \<Rightarrow> pystr \<times> pystr" where
  "match_frac s =
     (case s of
        c # d # ds \<Rightarrow>
          if c = 46 \<and> is_digit d
          then (c # takeWhile is_digit (d # ds), dropWhile is_digit (d # ds))
          else ([], s)
      | _ \<Rightarrow> ([], s))"

definition match_exp :: "pystr \<Rightarrow> pystr \<times> pystr" where
  "match_exp s =
     (case s of
        [] \<Rightarrow> ([], s)
      | e # r \<Rightarrow>
          if e = 101 \<or> e = 69 then
            (let sg = (case r of [] \<Rightarrow> [] | c # cs \<Rightarrow> if c = 45 \<or> c = 43 then [c] else []);
                 r1 = drop (length sg) r
             in case r1 of
                  [] \<Rightarrow> ([], s)
                | d # ds \<Rightarrow>
                    if is_digit d
                    then (e # sg @ takeWhile is_digit r1, dropWhile is_digit r1)
                    else ([], s))
          else ([], s))"

definition int_of_token :: "pystr \<Rightarrow> int" where
  "int_of_token t =
     (case t of
        [] \<Rightarrow> 0
      | c # cs \<Rightarrow> if c = 45 then - int (digits_value cs) else int (digits_value t))"

definition match_number :: "pystr \<Rightarrow> (json \<times> pystr) option" where
  "match_number s =
     (case match_int_part s of
        None \<Rightarrow> None
      | Some (integer, r1) \<Rightarrow>
          (case match_frac r1 of
             (frac_part, r2) \<Rightarrow>
               (case match_exp r2 of
                  (exp_part, r3) \<Rightarrow>
                    if frac_part \<noteq> [] \<or> exp_part \<noteq> []
                    then Some (JFloat (integer @ frac_part @ exp_part), r3)
                    else Some (JInt (int_of_token integer), r3))))"

definition py_dict :: "(pystr \<times> json) list \<Rightarrow> (pystr \<times> json) list" where
  "py_dict pairs = foldl (\<lambda>d (k, v). AList.update k v d) [] pairs"

fun scan_once :: "nat \<Rightarrow> pystr \<Rightarrow> py_error + (json \<times> pystr)"
  and parse_array :: "nat \<Rightarrow> pystr \<Rightarrow> py_error + (json list \<times> pystr)"
  and parse_object :: "nat \<Rightarrow> pystr \<Rightarrow> py_error + ((pystr \<times> json) list \<times> pystr)" where
  "scan_once 0 s = Inl OutOfFuel"
| "scan_once (Suc n) s =
     (case s of
        [] \<Rightarrow> Inl JSONDecodeError
      | c # cs \<Rightarrow>
          if c = 34 then
            (case scanstring cs of Inl e \<Rightarrow> Inl e | Inr (str, r) \<Rightarrow> Inr (JStr str, r))
          else if c = 123 then
            (case skip_ws cs of
               [] \<Rightarrow> Inl JSONDecodeError
             | d # r \<Rightarrow>
                 if d = 125 then Inr (JDict [], r)
                 else if d = 34 then
                   (case parse_object n r of
                      Inl e \<Rightarrow> Inl e
                    | Inr (pairs, r') \<Rightarrow> Inr (JDict (py_dict pairs), r'))
                 else Inl JSONDecodeError)
          else if c = 91 then
            (case skip_ws cs of
               [] \<Rightarrow> Inl JSONDecodeError
             | d # r \<Rightarrow>
                 if d = 93 then Inr (JList [], r)
                 else (case parse_array n (d # r) of
                         Inl e \<Rightarrow> Inl e
                       | Inr (values, r') \<Rightarrow> Inr (JList values, r')))
          else if c = 110 \<and> take 4 s = ascii ''null'' then Inr (JNull, drop 4 s)
          else if c = 116 \<and> take 4 s = ascii ''true'' then Inr (JBool True, drop 4 s)
          else if c = 102 \<and> take 5 s = ascii ''false'' then Inr (JBool False, drop 5 s)
          else
            (case match_number s of
               Some res \<Rightarrow> Inr res
             | None \<Rightarrow>
                 if c = 78 \<and> take 3 s = ascii ''NaN'' then Inr (JFloat (ascii ''NaN''), drop 3 s)
                 else if c = 73 \<and> take 8 s = ascii ''Infinity''
                   then Inr (JFloat (ascii ''Infinity''), drop 8 s)
                 else if c = 45 \<and> take 9 s = ascii ''-Infinity''
                   then Inr (JFloat (ascii ''-Infinity''), drop 9 s)
                 else Inl JSONDecodeError))"
| "parse_array 0 s = Inl OutOfFuel"
| "parse_array (Suc n) s =
     (case scan_once n s of
        Inl e \<Rightarrow> Inl e
      | Inr (v, r) \<Rightarrow>
          (case skip_ws r of
             [] \<Rightarrow> Inl JSONDecodeError
           | c # r1 \<Rightarrow>
               if c = 93 then Inr ([v], r1)
               else if c = 44 then
                 (case parse_array n (skip_ws r1) of
                    Inl e \<Rightarrow> Inl e
                  | Inr (vs, r2) \<Rightarrow> Inr (v # vs, r2))
               else Inl JSONDecodeError))"
| "parse_object 0 s = Inl OutOfFuel"
| "parse_object (Suc n) s =
     (case scanstring s of
        Inl e \<Rightarrow> Inl e
      | Inr (key, r) \<Rightarrow>
          (case skip_ws r of
             [] \<Rightarrow> Inl JSONDecodeError
           | c # r1 \<Rightarrow>
               if c \<noteq> 58 then Inl JSONDecodeError
               else
                 (case scan_once n (skip_ws r1) of
                    Inl e \<Rightarrow> Inl e
                  | Inr (v, r2) \<Rightarrow>
                      (case skip_ws r2 of
                         [] \<Rightarrow> Inl JSONDecodeError
                       | d # r3 \<Rightarrow>
                           if d = 125 then Inr ([(key, v)], r3)
                           else if d = 44 then
                             (case skip_ws r3 of
                                [] \<Rightarrow> Inl JSONDecodeError
                              | q # r4 \<Rightarrow>
                                  if q = 34 then
                                    (case parse_object n r4 of
                                       Inl e \<Rightarrow> Inl e
                                     | Inr (pairs, r5) \<Rightarrow> Inr ((key, v) # pairs, r5))
                                  else Inl JSONDecodeError)
                           else Inl JSONDecodeError))))"

definition json_loads :: "pystr \<Rightarrow> py_error + json" where
  "json_loads s =
     (case scan_once (2 * length s + 2) (skip_ws s) of
        Inl e \<Rightarrow> Inl e
      | Inr (obj, r) \<Rightarrow> if skip_ws r = [] then Inr obj else Inl JSONDecodeError)"
section \<open>Message protocol (src/utils/protocol.py)\<close>

datatype MessageType =
    MARKET_DATA
  | NEWS_SENTIMENT
  | TRADING_SIGNAL
  | ORDER
  | TRADE_EXECUTION
  | ORDERBOOK_UPDATE
  | HEARTBEAT
  | SHUTDOWN

fun MessageType_value :: "MessageType \<Rightarrow> int" where
  "MessageType_value MARKET_DATA = 1"
| "MessageType_value NEWS_SENTIMENT = 2"
| "MessageType_value TRADING_SIGNAL = 3"
| "MessageType_value ORDER = 4"
| "MessageType_value TRADE_EXECUTION = 5"
| "MessageType_value ORDERBOOK_UPDATE = 6"
| "MessageType_value HEARTBEAT = 7"
| "MessageType_value SHUTDOWN = 8"

definition MessageType_of_int :: "int \<Rightarrow> MessageType option" where
  "MessageType_of_int i =
     (if i = 1 then Some MARKET_DATA
      else if i = 2 then Some NEWS_SENTIMENT
      else if i = 3 then Some TRADING_SIGNAL
      else if i = 4 then Some ORDER
      else if i = 5 then Some TRADE_EXECUTION
      else if i = 6 then Some ORDERBOOK_UPDATE
      else if i = 7 then Some HEARTBEAT
      else if i = 8 then Some SHUTDOWN
      else None)"

record message =
  msg_type :: MessageType
  msg_data :: json

subsection \<open>struct.pack and struct.unpack, format \<open>>I\<close>\<close>

definition pack_I :: "nat \<Rightarrow> py_error + byte list" where
  "pack_I n =
     (if n < 4294967296
      then Inr [of_nat (n div 16777216), of_nat (n div 65536 mod 256),
                of_nat (n div 256 mod 256), of_nat (n mod 256)]
      else Inl StructError)"

definition unpack_I :: "byte list \<Rightarrow> py_error + nat" where
  "unpack_I bs =
     (case bs of
        [b0, b1, b2, b3] \<Rightarrow> Inr (((unat b0 * 256 + unat b1) * 256 + unat b2) * 256 + unat b3)
      | _ \<Rightarrow> Inl StructError)"

subsection \<open>str.encode('utf-8') and bytes.decode('utf-8')\<close>

definition utf8_encode_char :: "nat \<Rightarrow> byte list option" where
  "utf8_encode_char c =
     (if c < 128 then Some [of_nat c]
      else if c < 2048 then Some [of_nat (192 + c div 64), of_nat (128 + c mod 64)]
      else if 55296 \<le> c \<and> c \<le> 57343 then None
      else if c < 65536
        then Some [of_nat (224 + c div 4096), of_nat (128 + c div 64 mod 64), of_nat (128 + c mod 64)]
      else if c < 1114112
        then Some [of_nat (240 + c div 262144), of_nat (128 + c div 4096 mod 64),
                   of_nat (128 + c div 64 mod 64), of_nat (128 + c mod 64)]
      else None)"

fun utf8_encode :: "pystr \<Rightarrow> py_error + byte list" where
  "utf8_encode [] = Inr []"
| "utf8_encode (c # cs) =
     (case utf8_encode_char c of
        None \<Rightarrow> Inl UnicodeEncodeError
      | Some bs \<Rightarrow> (case utf8_encode cs of Inl e \<Rightarrow> Inl e | Inr rest \<Rightarrow> Inr (bs @ rest)))"

definition is_cont :: "byte \<Rightarrow> bool" where
  "is_cont b = (128 \<le> unat b \<and> unat b \<le> 191)"

definition cons_cp :: "nat \<Rightarrow> py_error + pystr \<Rightarrow> py_error + pystr" where
  "cons_cp c res = (case res of Inl e \<Rightarrow> Inl e | Inr s \<Rightarrow> Inr (c # s))"

fun utf8_decode :: "byte list \<Rightarrow> py_error + pystr" where
  "utf8_decode [] = Inr []"
| "utf8_decode (b # bs) =
     (let n = unat b
      in if n < 128 then cons_cp n (utf8_decode bs)
         else if 194 \<le> n \<and> n \<le> 223 then
           (case bs of
              b1 # r \<Rightarrow>
                if is_cont b1
                then cons_cp ((n - 192) * 64 + (unat b1 - 128)) (utf8_decode r)
                else Inl UnicodeDecodeError
            | _ \<Rightarrow> Inl UnicodeDecodeError)
         else if 224 \<le> n \<and> n \<le> 239 then
           (case bs of
              b1 # b2 # r \<Rightarrow>
                (let cp = ((n - 224) * 64 + (unat b1 - 128)) * 64 + (unat b2 - 128)
                 in if is_cont b1 \<and> is_cont b2 \<and> 2048 \<le> cp \<and> \<not> (55296 \<le> cp \<and> cp \<le> 57343)
                    then cons_cp cp (utf8_decode r)
                    else Inl UnicodeDecodeError)
            | _ \<Rightarrow> Inl UnicodeDecodeError)
         else if 240 \<le> n \<and> n \<le> 244 then
           (case bs of
              b1 # b2 # b3 # r \<Rightarrow>
                (let cp = (((n - 240) * 64 + (unat b1 - 128)) * 64 + (unat b2 - 128)) * 64
                          + (unat b3 - 128)
                 in if is_cont b1 \<and> is_cont b2 \<and> is_cont b3 \<and> 65536 \<le> cp \<and> cp < 1114112
                    then cons_cp cp (utf8_decode r)
                    else Inl UnicodeDecodeError)
            | _ \<Rightarrow> Inl UnicodeDecodeError)
         else Inl UnicodeDecodeError)"

subsection \<open>Message.serialize and Message.deserialize\<close>

definition serialize :: "message \<Rightarrow> py_error + byte list" where
  "serialize m =
     (let msg_dict = JDict [(ascii ''type'', JInt (MessageType_value (msg_type m))),
                            (ascii ''data'', msg_data m)];
          json_str = dumps msg_dict
      in case utf8_encode json_str of
           Inl e \<Rightarrow> Inl e
         | Inr json_bytes \<Rightarrow>
             (case pack_I (length json_bytes) of
                Inl e \<Rightarrow> Inl e
              | Inr length_prefix \<Rightarrow> Inr (length_prefix @ json_bytes)))"

definition py_getitem :: "json \<Rightarrow> pystr \<Rightarrow> py_error + json" where
  "py_getitem obj key =
     (case obj of
        JDict kvs \<Rightarrow> (case map_of kvs key of None \<Rightarrow> Inl KeyError | Some v \<Rightarrow> Inr v)
      | _ \<Rightarrow> Inl TypeError)"

text \<open>
  \<open>MessageType(value)\<close> looks the value up among the members' values with Python's
  \<open>==\<close>, under which \<open>True == 1\<close> and \<open>1.0 == 1\<close>. For a float the model reads the
  decimal value of the literal and rounds it to the nearest double (ties to even):
  a literal denotes the double \<open>k\<close>, for an integer \<open>k\<close> from 1 to 8, exactly when
  its value is within half a unit in the last place of \<open>k\<close>.
\<close>

definition exp_value :: "pystr \<Rightarrow> int" where
  "exp_value ep =
     (case ep of
        [] \<Rightarrow> 0
      | e # r \<Rightarrow>
          (case r of
             [] \<Rightarrow> 0
           | c # ds \<Rightarrow>
               if c = 45 then - int (digits_value ds)
               else if c = 43 then int (digits_value ds)
               else int (digits_value r)))"

definition literal_value :: "pystr \<Rightarrow> rat" where
  "literal_value t =
     (case match_int_part t of
        None \<Rightarrow> 0
      | Some (ip, r1) \<Rightarrow>
          (case match_frac r1 of
             (fp, r2) \<Rightarrow>
               (case match_exp r2 of
                  (ep, r3) \<Rightarrow>
                    let neg = (take 1 ip = [45]);
                        idigits = (if neg then tl ip else ip);
                        fdigits = tl fp;
                        mantissa = of_nat (digits_value (idigits @ fdigits)) / 10 ^ length fdigits;
                        e = exp_value ep;
                        scaled = (if 0 \<le> e then mantissa * 10 ^ nat e
                                  else mantissa / 10 ^ nat (- e))
                    in if neg then - scaled else scaled)))"

definition half_ulp_below :: "int \<Rightarrow> rat" where
  "half_ulp_below k =
     (if k = 1 then 1 / 2 ^ 54
      else if k = 2 then 1 / 2 ^ 53
      else if k = 3 \<or> k = 4 then 1 / 2 ^ 52
      else 1 / 2 ^ 51)"

definition half_ulp_above :: "int \<Rightarrow> rat" where
  "half_ulp_above k =
     (if k = 1 then 1 / 2 ^ 53
      else if k = 2 \<or> k = 3 then 1 / 2 ^ 52
      else if k = 8 then 1 / 2 ^ 50
      else 1 / 2 ^ 51)"

definition float_literal_eq :: "pystr \<Rightarrow> int \<Rightarrow> bool" where
  "float_literal_eq t k =
     (match_int_part t \<noteq> None
      \<and> of_int k - half_ulp_below k \<le> literal_value t
      \<and> literal_value t \<le> of_int k + half_ulp_above k)"

definition MessageType_of :: "json \<Rightarrow> MessageType option" where
  "MessageType_of v =
     (case v of
        JInt i \<Rightarrow> MessageType_of_int i
      | JBool b \<Rightarrow> MessageType_of_int (if b then 1 else 0)
      | JFloat t \<Rightarrow>
          (case filter (float_literal_eq t) [1, 2, 3, 4, 5, 6, 7, 8] of
             [] \<Rightarrow> None
           | k # _ \<Rightarrow> MessageType_of_int k)
      | _ \<Rightarrow> None)"

definition deserialize :: "byte list \<Rightarrow> py_error + message" where
  "deserialize bs =
     (case utf8_decode bs of
        Inl e \<Rightarrow> Inl e
      | Inr json_str \<Rightarrow>
          (case json_loads json_str of
             Inl e \<Rightarrow> Inl e
           | Inr msg_dict \<Rightarrow>
               (case py_getitem msg_dict (ascii ''type'') of
                  Inl e \<Rightarrow> Inl e
                | Inr t \<Rightarrow>
                    (case MessageType_of t of
                       None \<Rightarrow> Inl ValueError
                     | Some ty \<Rightarrow>
                         (case py_getitem msg_dict (ascii ''data'') of
                            Inl e \<Rightarrow> Inl e
                          | Inr d \<Rightarrow> Inr \<lparr>msg_type = ty, msg_data = d\<rparr>)))))"

subsection \<open>Message.read_message\<close>

text \<open>
  A connected socket, as far as reading goes: the chunks the transport will deliver, in
  order. \<open>recv(bufsize)\<close> returns at most \<open>bufsize\<close> bytes of the first chunk and
  leaves the rest of it; it returns the empty bytes object when nothing is left.
\<close>

type_synonym sock = "byte list list"

definition recv :: "nat \<Rightarrow> sock \<Rightarrow> byte list \<times> sock" where
  "recv bufsize s =
     (case s of
        [] \<Rightarrow> ([], [])
      | c # cs \<Rightarrow>
          if length c \<le> bufsize then (c, cs) else (take bufsize c, drop bufsize c # cs))"

function recv_length :: "byte list \<Rightarrow> sock \<Rightarrow> (py_error + byte list) \<times> sock" where
  "recv_length length_bytes s =
     (if length length_bytes < 4 then
        (case recv (4 - length length_bytes) s of
           (chunk, s') \<Rightarrow>
             if chunk = [] then (Inl ConnectionError, s')
             else recv_length (length_bytes @ chunk) s')
      else (Inr length_bytes, s))"
  by pat_completeness auto
termination
  by (relation "measure (\<lambda>(length_bytes, s). 4 - length length_bytes)")
     (auto simp: neq_Nil_conv)

function recv_data :: "nat \<Rightarrow> byte list \<Rightarrow> sock \<Rightarrow> (py_error + byte list) \<times> sock" where
  "recv_data len data s =
     (if length data < len then
        (case recv (min (len - length data) 4096) s of
           (chunk, s') \<Rightarrow>
             if chunk = [] then (Inl ConnectionError, s')
             else recv_data len (data @ chunk) s')
      else (Inr data, s))"
  by pat_completeness auto
termination
  by (relation "measure (\<lambda>(len, data, s). len - length data)")
     (auto simp: neq_Nil_conv)

declare recv_length.simps [simp del] recv_data.simps [simp del]

definition read_message :: "sock \<Rightarrow> (py_error + message \<times> nat) \<times> sock" where
  "read_message s =
     (case recv_length [] s of
        (Inl e, s1) \<Rightarrow> (Inl e, s1)
      | (Inr length_bytes, s1) \<Rightarrow>
          (case unpack_I length_bytes of
             Inl e \<Rightarrow> (Inl e, s1)
           | Inr len \<Rightarrow>
               (case recv_data len [] s1 of
                  (Inl e, s2) \<Rightarrow> (Inl e, s2)
                | (Inr data, s2) \<Rightarrow>
                    (case deserialize data of
                       Inl e \<Rightarrow> (Inl e, s2)
                     | Inr message \<Rightarrow> (Inr (message, len + 4), s2)))))"

section \<open>Shared order-book store (src/utils/shared_memory.py)\<close>

definition HEADER_SIZE :: nat where
  "HEADER_SIZE = 16"

definition MEMORY_SIZE :: nat where
  "MEMORY_SIZE = 1024 * 64"

text \<open>
  The segment is its bytes; the lock makes each call atomic, so a call is a function of
  the segment. A float on this path is the literal \<open>repr\<close> prints for it (see
  \<open>JFloat\<close>); the timestamp, which is only packed and unpacked, is its IEEE-754 bit
  pattern.
\<close>

record shm =
  buf :: "byte list"

type_synonym level = "pystr \<times> pystr"

record snapshot =
  snap_timestamp :: "64 word"
  snap_bids :: "(json \<times> json) list"
  snap_asks :: "(json \<times> json) list"

text \<open>\<open>SharedMemory(create=True, size=MEMORY_SIZE)\<close>: a new segment is zero-filled.\<close>

definition shm_create :: shm where
  "shm_create = \<lparr>buf = replicate MEMORY_SIZE 0\<rparr>"

subsection \<open>struct.pack and struct.unpack, format \<open>>dII\<close>\<close>

fun be_bytes :: "nat \<Rightarrow> nat \<Rightarrow> byte list" where
  "be_bytes 0 n = []"
| "be_bytes (Suc k) n = be_bytes k (n div 256) @ [of_nat (n mod 256)]"

definition be_value :: "byte list \<Rightarrow> nat" where
  "be_value bs = foldl (\<lambda>a b. a * 256 + unat b) 0 bs"

definition pack_d :: "64 word \<Rightarrow> byte list" where
  "pack_d w = be_bytes 8 (unat w)"

definition unpack_d :: "byte list \<Rightarrow> 64 word" where
  "unpack_d bs = of_nat (be_value bs)"

definition pack_dII :: "64 word \<Rightarrow> nat \<Rightarrow> nat \<Rightarrow> py_error + byte list" where
  "pack_dII d i1 i2 =
     (case pack_I i1 of
        Inl e \<Rightarrow> Inl e
      | Inr b1 \<Rightarrow> (case pack_I i2 of Inl e \<Rightarrow> Inl e | Inr b2 \<Rightarrow> Inr (pack_d d @ b1 @ b2)))"

definition unpack_dII :: "byte list \<Rightarrow> py_error + (64 word \<times> nat \<times> nat)" where
  "unpack_dII bs =
     (if length bs = 16 then
        (case unpack_I (take 4 (drop 8 bs)) of
           Inl e \<Rightarrow> Inl e
         | Inr i1 \<Rightarrow>
             (case unpack_I (drop 12 bs) of
                Inl e \<Rightarrow> Inl e
              | Inr i2 \<Rightarrow> Inr (unpack_d (take 8 bs), i1, i2)))
      else Inl StructError)"

text \<open>\<open>timestamp == 0\<close> for a double: plus zero or minus zero.\<close>

definition double_is_zero :: "64 word \<Rightarrow> bool" where
  "double_is_zero w = (w = 0 \<or> w = 9223372036854775808)"

subsection \<open>Slices of the buffer\<close>

text \<open>
  \<open>buf[i:j] = bs\<close> on a memoryview: the slice bounds are clipped to the buffer, and
  the assignment raises ValueError unless the slice and \<open>bs\<close> have the same length.
\<close>

definition set_slice :: "byte list \<Rightarrow> nat \<Rightarrow> nat \<Rightarrow> byte list \<Rightarrow> py_error + byte list" where
  "set_slice b i j bs =
     (let i' = min i (length b); j' = max i' (min j (length b))
      in if j' - i' = length bs then Inr (take i' b @ bs @ drop j' b) else Inl ValueError)"

definition get_slice :: "byte list \<Rightarrow> nat \<Rightarrow> nat \<Rightarrow> byte list" where
  "get_slice b i j = take (j - i) (drop i b)"

subsection \<open>write_orderbook\<close>

definition level_json :: "level \<Rightarrow> json" where
  "level_json l = (case l of (price, size') \<Rightarrow> JList [JFloat price, JFloat size'])"

definition orderbook_json :: "level list \<Rightarrow> level list \<Rightarrow> json" where
  "orderbook_json bids asks =
     JDict [(ascii ''bids'', JList (map level_json bids)),
            (ascii ''asks'', JList (map level_json asks))]"

definition write_orderbook ::
  "64 word \<Rightarrow> level list \<Rightarrow> level list \<Rightarrow> shm \<Rightarrow> (py_error + unit) \<times> shm" where
  "write_orderbook timestamp bids asks m =
     (let num_bids = length bids;
          num_asks = length asks;
          data = orderbook_json bids asks
      in case utf8_encode (dumps data) of
           Inl e \<Rightarrow> (Inl e, m)
         | Inr json_bytes \<Rightarrow>
             if length json_bytes > MEMORY_SIZE - HEADER_SIZE then (Inl ValueError, m)
             else
               (case pack_dII timestamp num_bids num_asks of
                  Inl e \<Rightarrow> (Inl e, m)
                | Inr header \<Rightarrow>
                    (case set_slice (buf m) 0 HEADER_SIZE header of
                       Inl e \<Rightarrow> (Inl e, m)
                     | Inr buf1 \<Rightarrow>
                         (case set_slice buf1 HEADER_SIZE (HEADER_SIZE + length json_bytes)
                                 json_bytes of
                            Inl e \<Rightarrow> (Inl e, m\<lparr>buf := buf1\<rparr>)
                          | Inr buf2 \<Rightarrow> (Inr (), m\<lparr>buf := buf2\<rparr>)))))"

subsection \<open>read_orderbook\<close>

text \<open>Iteration over a value, and the unpacking \<open>price, size = item\<close>.\<close>

definition py_iter :: "json \<Rightarrow> py_error + json list" where
  "py_iter v =
     (case v of
        JList xs \<Rightarrow> Inr xs
      | JStr s \<Rightarrow> Inr (map (\<lambda>c. JStr [c]) s)
      | JDict kvs \<Rightarrow> Inr (map (\<lambda>kv. JStr (fst kv)) kvs)
      | _ \<Rightarrow> Inl TypeError)"

definition unpack2 :: "json \<Rightarrow> py_error + (json \<times> json)" where
  "unpack2 v =
     (case py_iter v of
        Inl e \<Rightarrow> Inl e
      | Inr items \<Rightarrow> (case items of [price, size'] \<Rightarrow> Inr (price, size') | _ \<Rightarrow> Inl ValueError))"

fun unpack_all :: "json list \<Rightarrow> py_error + (json \<times> json) list" where
  "unpack_all [] = Inr []"
| "unpack_all (x # xs) =
     (case unpack2 x of
        Inl e \<Rightarrow> Inl e
      | Inr p \<Rightarrow> (case unpack_all xs of Inl e \<Rightarrow> Inl e | Inr ps \<Rightarrow> Inr (p # ps)))"

definition read_levels :: "json \<Rightarrow> pystr \<Rightarrow> py_error + (json \<times> json) list" where
  "read_levels data key =
     (case py_getitem data key of
        Inl e \<Rightarrow> Inl e
      | Inr v \<Rightarrow> (case py_iter v of Inl e \<Rightarrow> Inl e | Inr items \<Rightarrow> unpack_all items))"

definition read_orderbook :: "shm \<Rightarrow> py_error + snapshot option" where
  "read_orderbook m =
     (let header_bytes = get_slice (buf m) 0 HEADER_SIZE
      in case unpack_dII header_bytes of
           Inl e \<Rightarrow> Inl e
         | Inr (timestamp, num_bids, num_asks) \<Rightarrow>
             if double_is_zero timestamp then Inr None
             else
               let max_json_size = MEMORY_SIZE - HEADER_SIZE;
                   json_bytes = get_slice (buf m) HEADER_SIZE (HEADER_SIZE + max_json_size);
                   json_bytes = takeWhile (\<lambda>b. b \<noteq> 0) json_bytes
               in case utf8_decode json_bytes of
                    Inl e \<Rightarrow> Inr None
                  | Inr text \<Rightarrow>
                      (case json_loads text of
                         Inl e \<Rightarrow> if e = JSONDecodeError then Inr None else Inl e
                       | Inr data \<Rightarrow>
                           (case read_levels data (ascii ''bids'') of
                              Inl e \<Rightarrow> Inl e
                            | Inr bids \<Rightarrow>
                                (case read_levels data (ascii ''asks'') of
                                   Inl e \<Rightarrow> Inl e
                                 | Inr asks \<Rightarrow>
                                     Inr (Some \<lparr>snap_timestamp = timestamp, snap_bids = bids,
                                                 snap_asks = asks\<rparr>)))))"

definition get_best_bid_ask :: "shm \<Rightarrow> py_error + (json \<times> json) option" where
  "get_best_bid_ask m =
     (case read_orderbook m of
        Inl e \<Rightarrow> Inl e
      | Inr None \<Rightarrow> Inr None
      | Inr (Some orderbook) \<Rightarrow>
          (case (snap_bids orderbook, snap_asks orderbook) of
             (b # _, a # _) \<Rightarrow> Inr (Some (fst b, fst a))
           | _ \<Rightarrow> Inr None))"

section \<open>Strategy (src/processes/strategy.py)\<close>

text \<open>Config.PRICE_CHANGE_THRESHOLD and Config.SENTIMENT_THRESHOLD (src/utils/config.py).\<close>

definition PRICE_CHANGE_THRESHOLD :: real where
  "PRICE_CHANGE_THRESHOLD = 5 / 1000"

definition SENTIMENT_THRESHOLD :: real where
  "SENTIMENT_THRESHOLD = 3 / 10"

datatype action = BUY | SELL

record signal =
  sig_symbol :: pystr
  sig_action :: action
  sig_price :: real
  sig_price_change :: real
  sig_sentiment :: real
  sig_timestamp :: real

record order =
  order_id :: pystr
  ord_symbol :: pystr
  ord_side :: action
  ord_price :: real
  ord_quantity :: int
  ord_timestamp :: real
  ord_price_change :: real
  ord_sentiment :: real

text \<open>
  The state of a \<open>Strategy\<close> object that its message handlers read and write.
  \<open>sentiment_scores\<close> is a \<open>defaultdict(float)\<close>: a missing key reads as 0.0.
\<close>

record strategy =
  last_prices :: "pystr \<rightharpoonup> real"
  sentiment_scores :: "pystr \<rightharpoonup> real"
  signal_count :: nat
  order_count :: nat

definition strategy_init :: strategy where
  "strategy_init =
     \<lparr>last_prices = Map.empty, sentiment_scores = Map.empty, signal_count = 0, order_count = 0\<rparr>"

text \<open>
  What a handler takes from outside the object: the three readings of \<open>time.time()\<close>
  (in \<open>generate_signal\<close>, and twice in \<open>create_order\<close>), the value of
  \<open>random.randint(10, 100)\<close>, and whether \<open>om_socket.sendall\<close> returns or raises.
\<close>

record env =
  now_signal :: real
  now_order_id :: real
  now_order :: real
  rand_quantity :: int
  send_ok :: bool

definition get_sentiment :: "strategy \<Rightarrow> pystr \<Rightarrow> real" where
  "get_sentiment s symbol = (case sentiment_scores s symbol of None \<Rightarrow> 0 | Some v \<Rightarrow> v)"

definition generate_signal ::
  "real \<Rightarrow> pystr \<Rightarrow> real \<Rightarrow> strategy \<Rightarrow> py_error + (signal option \<times> strategy)" where
  "generate_signal now symbol current_price s =
     (case last_prices s symbol of
        None \<Rightarrow> Inr (None, s)
      | Some last_price \<Rightarrow>
          if last_price = 0 then Inl ZeroDivisionError
          else
            let price_change = (current_price - last_price) / last_price;
                sentiment = get_sentiment s symbol
            in if price_change > PRICE_CHANGE_THRESHOLD \<and> sentiment > SENTIMENT_THRESHOLD
               then Inr (Some \<lparr>sig_symbol = symbol, sig_action = BUY, sig_price = current_price,
                                sig_price_change = price_change, sig_sentiment = sentiment,
                                sig_timestamp = now\<rparr>,
                         s\<lparr>signal_count := signal_count s + 1\<rparr>)
               else if price_change < - PRICE_CHANGE_THRESHOLD \<and> sentiment < - SENTIMENT_THRESHOLD
               then Inr (Some \<lparr>sig_symbol = symbol, sig_action = SELL, sig_price = current_price,
                                sig_price_change = price_change, sig_sentiment = sentiment,
                                sig_timestamp = now\<rparr>,
                         s\<lparr>signal_count := signal_count s + 1\<rparr>)
               else Inr (None, s))"

definition create_order :: "real \<Rightarrow> real \<Rightarrow> int \<Rightarrow> signal \<Rightarrow> order" where
  "create_order now_id now quantity sg =
     \<lparr>order_id = ascii ''ORD_'' @ str_int (int_of_float (now_id * 1000000)),
      ord_symbol = sig_symbol sg,
      ord_side = sig_action sg,
      ord_price = sig_price sg,
      ord_quantity = quantity,
      ord_timestamp = now,
      ord_price_change = sig_price_change sg,
      ord_sentiment = sig_sentiment sg\<rparr>"

text \<open>
  The payload fields the handlers read, typed as the gateway builds them.
  \<open>md_last_price = None\<close> is a payload without the key \<open>last_price\<close>, for which
  \<open>data.get('last_price', 0)\<close> is 0.
\<close>

record market_data =
  md_symbol :: pystr
  md_last_price :: "real option"

record news =
  news_symbol :: pystr
  news_score :: real

text \<open>
  What one call of \<open>process_market_data\<close> lets out: the signal it generated (logged),
  and the order whose serialized message \<open>sendall\<close> wrote to the order manager's socket.
\<close>

record emitted =
  em_signal :: "signal option"
  em_order :: "order option"

definition no_output :: emitted where
  "no_output = \<lparr>em_signal = None, em_order = None\<rparr>"

definition process_market_data ::
  "env \<Rightarrow> market_data \<Rightarrow> strategy \<Rightarrow> py_error + (emitted \<times> strategy)" where
  "process_market_data e data s =
     (let symbol = md_symbol data;
          current_price = (case md_last_price data of None \<Rightarrow> 0 | Some p \<Rightarrow> p)
      in if current_price > 0 then
           (case generate_signal (now_signal e) symbol current_price s of
              Inl err \<Rightarrow> Inl err
            | Inr (None, s1) \<Rightarrow>
                Inr (no_output, s1\<lparr>last_prices := (last_prices s1)(symbol \<mapsto> current_price)\<rparr>)
            | Inr (Some sg, s1) \<Rightarrow>
                let ord = create_order (now_order_id e) (now_order e) (rand_quantity e) sg;
                    s2 = (if send_ok e then s1\<lparr>order_count := order_count s1 + 1\<rparr> else s1)
                in Inr (\<lparr>em_signal = Some sg, em_order = (if send_ok e then Some ord else None)\<rparr>,
                        s2\<lparr>last_prices := (last_prices s2)(symbol \<mapsto> current_price)\<rparr>))
         else Inr (no_output, s))"

definition process_news :: "news \<Rightarrow> strategy \<Rightarrow> strategy" where
  "process_news data s =
     (let symbol = news_symbol data;
          score = news_score data;
          alpha = 3 / 10
      in s\<lparr>sentiment_scores :=
             (sentiment_scores s)(symbol \<mapsto> alpha * score + (1 - alpha) * get_sentiment s symbol)\<rparr>)"

text \<open>
  The body of the loop of \<open>Strategy.run\<close> for one message read from the gateway:
  dispatch on the message type. An exception of a handler is caught by the loop
  (\<open>except Exception\<close>), which goes on with the state as it is.
\<close>

datatype event = MarketData market_data | NewsSentiment news | Shutdown | OtherMessage

definition strategy_step :: "env \<Rightarrow> event \<Rightarrow> strategy \<Rightarrow> emitted \<times> strategy" where
  "strategy_step e ev s =
     (case ev of
        MarketData data \<Rightarrow>
          (case process_market_data e data s of Inl err \<Rightarrow> (no_output, s) | Inr r \<Rightarrow> r)
      | NewsSentiment data \<Rightarrow> (no_output, process_news data s)
      | Shutdown \<Rightarrow> (no_output, s)
      | OtherMessage \<Rightarrow> (no_output, s))"

fun strategy_run :: "(env \<times> event) list \<Rightarrow> strategy \<Rightarrow> strategy" where
  "strategy_run [] s = s"
| "strategy_run ((e, Shutdown) # evs) s = s"
| "strategy_run ((e, ev) # evs) s = strategy_run evs (snd (strategy_step e ev s))"

section \<open>Order manager (src/processes/ordermanager.py)\<close>



section \<open>Predicates and sample values used in the statements\<close>

definition score_in_range :: "event \<Rightarrow> bool" where
  "score_in_range ev =
     (case ev of NewsSentiment d \<Rightarrow> - 1 \<le> news_score d \<and> news_score d \<le> 1 | _ \<Rightarrow> True)"

definition sentiment_bounded :: "strategy \<Rightarrow> bool" where
  "sentiment_bounded s = (\<forall>symb. - 1 \<le> get_sentiment s symb \<and> get_sentiment s symb \<le> 1)"

definition prices_positive :: "strategy \<Rightarrow> bool" where
  "prices_positive s = (\<forall>symb p. last_prices s symb = Some p \<longrightarrow> 0 < p)"

definition env0 :: env where
  "env0 = \<lparr>now_signal = 1, now_order_id = 2, now_order = 3, rand_quantity = 10, send_ok = True\<rparr>"

definition AAPL :: pystr where
  "AAPL = ascii ''AAPL''"


definition strategy1 :: strategy where
  "strategy1 = \<lparr>last_prices = [AAPL \<mapsto> 100], sentiment_scores = [AAPL \<mapsto> 1 / 2],
                 signal_count = 0, order_count = 0\<rparr>"




definition is_scalar :: "nat \<Rightarrow> bool" where
  "is_scalar c = (c < 1114112 \<and> \<not> (55296 \<le> c \<and> c \<le> 57343))"

definition num_delim :: "pystr \<Rightarrow> bool" where
  "num_delim r =
     (case r of [] \<Rightarrow> True
      | c # _ \<Rightarrow> \<not> is_digit c \<and> c \<noteq> 45 \<and> c \<noteq> 43 \<and> c \<noteq> 46 \<and> c \<noteq> 69 \<and> c \<noteq> 101)"

definition is_float_literal :: "pystr \<Rightarrow> bool" where
  "is_float_literal t = (match_number t = Some (JFloat t, []))"

fun wf_json :: "json \<Rightarrow> bool"
  and wf_list :: "json list \<Rightarrow> bool"
  and wf_items :: "(pystr \<times> json) list \<Rightarrow> bool" where
  "wf_json JNull = True"
| "wf_json (JBool b) = True"
| "wf_json (JInt i) = True"
| "wf_json (JFloat t) = is_float_literal t"
| "wf_json (JStr s) = list_all is_scalar s"
| "wf_json (JList xs) = wf_list xs"
| "wf_json (JDict kvs) = (distinct (map fst kvs) \<and> wf_items kvs)"
| "wf_list [] = True"
| "wf_list (x # xs) = (wf_json x \<and> wf_list xs)"
| "wf_items [] = True"
| "wf_items ((k, v) # kvs) = (list_all is_scalar k \<and> wf_json v \<and> wf_items kvs)"

fun fuel_of :: "json \<Rightarrow> nat"
  and fuel_list :: "json list \<Rightarrow> nat"
  and fuel_items :: "(pystr \<times> json) list \<Rightarrow> nat" where
  "fuel_of (JList xs) = Suc (fuel_list xs)"
| "fuel_of (JDict kvs) = Suc (fuel_items kvs)"
| "fuel_of v = 1"
| "fuel_list [] = 0"
| "fuel_list (x # xs) = Suc (fuel_of x + fuel_list xs)"
| "fuel_items [] = 0"
| "fuel_items ((k, v) # kvs) = Suc (fuel_of v + fuel_items kvs)"

definition value_start :: "nat \<Rightarrow> bool" where
  "value_start c = (\<not> is_ws c \<and> c \<noteq> 93 \<and> c \<noteq> 125 \<and> c \<noteq> 44 \<and> c \<noteq> 58)"

definition printable :: "pystr \<Rightarrow> bool" where
  "printable s = list_all (\<lambda>c. 32 \<le> c \<and> c \<le> 126) s"

definition ascii_bytes :: "pystr \<Rightarrow> byte list" where
  "ascii_bytes s = map of_nat s"

definition message_dict :: "message \<Rightarrow> json" where
  "message_dict m = JDict [(ascii ''type'', JInt (MessageType_value (msg_type m))),
                           (ascii ''data'', msg_data m)]"

definition nonempty_chunks :: "sock \<Rightarrow> bool" where
  "nonempty_chunks s = list_all (\<lambda>c. c \<noteq> []) s"

definition msg0 :: message where
  "msg0 = \<lparr>msg_type = MARKET_DATA,
           msg_data = JDict [(ascii ''symbol'', JStr (ascii ''AAPL'')),
                             (ascii ''price'', JFloat (ascii ''150.0''))]\<rparr>"

text \<open>
  Modelled from the spec: the expected payload shape of a message kind (spec section 3),
  as the fields its producer under src/ puts into the payload dictionary. The repository
  has no function that checks a payload against its kind.
\<close>

fun required_keys :: "MessageType \<Rightarrow> pystr list" where
  "required_keys MARKET_DATA =
     [ascii ''symbol'', ascii ''timestamp'', ascii ''bids'', ascii ''asks'',
      ascii ''last_price'', ascii ''volume'']"
| "required_keys NEWS_SENTIMENT =
     [ascii ''symbol'', ascii ''timestamp'', ascii ''sentiment'', ascii ''score'',
      ascii ''headline'']"
| "required_keys TRADING_SIGNAL =
     [ascii ''symbol'', ascii ''action'', ascii ''price'', ascii ''price_change'',
      ascii ''sentiment'', ascii ''timestamp'']"
| "required_keys ORDER =
     [ascii ''order_id'', ascii ''symbol'', ascii ''side'', ascii ''price'', ascii ''quantity'',
      ascii ''timestamp'', ascii ''signal_data'']"
| "required_keys TRADE_EXECUTION =
     [ascii ''execution_id'', ascii ''order_id'', ascii ''symbol'', ascii ''side'',
      ascii ''quantity'', ascii ''order_price'', ascii ''execution_price'', ascii ''timestamp'',
      ascii ''status'']"
| "required_keys ORDERBOOK_UPDATE = [ascii ''bids'', ascii ''asks'']"
| "required_keys HEARTBEAT = []"
| "required_keys SHUTDOWN = []"

definition payload_has_shape :: "MessageType \<Rightarrow> json \<Rightarrow> bool" where
  "payload_has_shape k d =
     (case d of
        JDict kvs \<Rightarrow> list_all (\<lambda>key. map_of kvs key \<noteq> None) (required_keys k)
      | _ \<Rightarrow> False)"

definition shm_valid :: "shm \<Rightarrow> bool" where
  "shm_valid m = (length (buf m) = MEMORY_SIZE)"

definition wf_levels :: "level list \<Rightarrow> bool" where
  "wf_levels ls = list_all (\<lambda>l. is_float_literal (fst l) \<and> is_float_literal (snd l)) ls"

definition payload :: "level list \<Rightarrow> level list \<Rightarrow> pystr" where
  "payload bids asks = dumps (orderbook_json bids asks)"

definition level_pair :: "level \<Rightarrow> json \<times> json" where
  "level_pair l = (JFloat (fst l), JFloat (snd l))"

definition ts_a :: "64 word" where
  "ts_a = 4744917124793761792"

definition ts_b :: "64 word" where
  "ts_b = 4744917124795858944"

definition bids_a :: "level list" where
  "bids_a = [(ascii ''100.0'', ascii ''10.0''), (ascii ''99.9'', ascii ''20.0'')]"

definition asks_a :: "level list" where
  "asks_a = [(ascii ''100.1'', ascii ''10.0''), (ascii ''100.2'', ascii ''20.0'')]"

definition bids_b :: "level list" where
  "bids_b = [(ascii ''101.0'', ascii ''20.0'')]"

definition asks_b :: "level list" where
  "asks_b = [(ascii ''101.1'', ascii ''20.0'')]"

definition bids_full :: "level list" where
  "bids_full = (ascii ''10.0'', ascii ''10.0'') # replicate 5457 (ascii ''1.0'', ascii ''1.0'')"

definition bids_over :: "level list" where
  "bids_over = (ascii ''100.0'', ascii ''10.0'') # replicate 5457 (ascii ''1.0'', ascii ''1.0'')"

section \<open>Decimal digits\<close>

declare nat_digits.simps [simp del]

lemma digits_value_snoc: "digits_value (ds @ [d]) = 10 * digits_value ds + (d - 48)"
  by (simp add: digits_value_def)

lemma digits_value_nat_digits: "digits_value (nat_digits n) = n"
proof (induction n rule: nat_digits.induct)
  case (1 n)
  show ?case
  proof (cases "n < 10")
    case True
    then show ?thesis by (simp add: nat_digits.simps [of n] digits_value_def)
  next
    case False
    with 1 show ?thesis
      by (simp add: nat_digits.simps [of n] digits_value_snoc)
  qed
qed

lemma nat_digits_all_digits: "c \<in> set (nat_digits n) \<Longrightarrow> 48 \<le> c \<and> c \<le> 57"
proof (induction n rule: nat_digits.induct)
  case (1 n)
  then show ?case
    by (cases "n < 10") (auto simp: nat_digits.simps [of n])
qed




section \<open>Properties of the JSON encoder and decoder\<close>

subsection \<open>Strings\<close>

lemma hexval_hexdigit: "d < 16 \<Longrightarrow> hexval (hexdigit d) = Some d"
  by (auto simp: hexval_def hexdigit_def)

lemma hex4_value:
  assumes "n < (65536::nat)"
  shows "((n div 4096 mod 16 * 16 + n div 256 mod 16) * 16 + n div 16 mod 16) * 16 + n mod 16 = n"
proof -
  define q1 where "q1 = n div 4096"
  define q2 where "q2 = n div 256"
  define q3 where "q3 = n div 16"
  define r1 where "r1 = n div 256 mod 16"
  define r2 where "r2 = n div 16 mod 16"
  define r3 where "r3 = n mod 16"
  have a: "n div 4096 mod 16 = q1" using assms by (simp add: q1_def)
  have e1: "n div 256 div 16 = n div 4096" "n div 16 div 16 = n div 256"
    by (simp_all add: div_mult2_eq [symmetric])
  have b: "q2 = q1 * 16 + r1"
    unfolding q1_def q2_def r1_def
    using div_mult_mod_eq [of "n div 256" 16] by (simp only: e1)
  have c: "q3 = q2 * 16 + r2"
    unfolding q2_def q3_def r2_def
    using div_mult_mod_eq [of "n div 16" 16] by (simp only: e1)
  have d: "n = q3 * 16 + r3"
    unfolding q3_def r3_def by simp
  have "((q1 * 16 + r1) * 16 + r2) * 16 + r3 = n"
    by (simp add: d c b)
  then show ?thesis
    unfolding a unfolding r1_def r2_def r3_def .
qed

lemma decode_uXXXX_hex4:
  assumes "n < 65536"
  shows "decode_uXXXX (hex4 n @ r) = Some n"
proof -
  define a where "a = n div 4096 mod 16"
  define b where "b = n div 256 mod 16"
  define c where "c = n div 16 mod 16"
  define d where "d = n mod 16"
  have lt: "a < 16" "b < 16" "c < 16" "d < 16"
    by (simp_all add: a_def b_def c_def d_def)
  have e: "((a * 16 + b) * 16 + c) * 16 + d = n"
    using hex4_value [OF assms] unfolding a_def b_def c_def d_def .
  have h: "hex4 n = [hexdigit a, hexdigit b, hexdigit c, hexdigit d]"
    by (simp add: hex4_def a_def b_def c_def d_def)
  have "decode_uXXXX (hex4 n @ r) = Some (((a * 16 + b) * 16 + c) * 16 + d)"
    unfolding h decode_uXXXX_def
    by (simp add: hexval_hexdigit [OF lt(1)] hexval_hexdigit [OF lt(2)]
        hexval_hexdigit [OF lt(3)] hexval_hexdigit [OF lt(4)])
  then show ?thesis by (simp only: e)
qed

lemma hex4_length: "length (hex4 n) = 4"
  by (simp add: hex4_def)

lemma hex4_cases:
  obtains a b c d where "hex4 n = [a, b, c, d]"
  by (simp add: hex4_def)

lemma scanstring_uescape_plain:
  assumes "n < 65536" "\<not> (55296 \<le> n \<and> n \<le> 56319)"
  shows "scanstring (uescape n @ r) = cons_char n (scanstring r)"
proof -
  obtain a b c d where h: "hex4 n = [a, b, c, d]" by (rule hex4_cases)
  have "decode_uXXXX (a # b # c # d # r) = Some n"
    using decode_uXXXX_hex4 [OF assms(1), of r] by (simp add: h)
  then show ?thesis
    using assms(2) by (auto simp: uescape_def h)
qed

lemma scanstring_uescape_pair:
  assumes "55296 \<le> hi" "hi \<le> 56319" "56320 \<le> lo" "lo \<le> 57343"
  shows "scanstring (uescape hi @ uescape lo @ r)
     = cons_char (65536 + ((hi - 55296) * 1024 + (lo - 56320))) (scanstring r)"
proof -
  obtain a b c d where h: "hex4 hi = [a, b, c, d]" by (rule hex4_cases)
  obtain a' b' c' d' where l: "hex4 lo = [a', b', c', d']" by (rule hex4_cases)
  have "hi < 65536" "lo < 65536" using assms by simp_all
  then have dh: "decode_uXXXX (a # b # c # d # 92 # 117 # a' # b' # c' # d' # r) = Some hi"
    and dl: "decode_uXXXX (a' # b' # c' # d' # r) = Some lo"
    using decode_uXXXX_hex4 [of hi "92 # 117 # a' # b' # c' # d' # r"]
      decode_uXXXX_hex4 [of lo r]
    by (simp_all add: h l)
  show ?thesis
    using assms(1,2,3,4) by (simp add: uescape_def h l dh dl)
qed

lemma escape_char_short:
  "scanstring (escape_char 92 @ r) = cons_char 92 (scanstring r)"
  "scanstring (escape_char 34 @ r) = cons_char 34 (scanstring r)"
  "scanstring (escape_char 8 @ r) = cons_char 8 (scanstring r)"
  "scanstring (escape_char 12 @ r) = cons_char 12 (scanstring r)"
  "scanstring (escape_char 10 @ r) = cons_char 10 (scanstring r)"
  "scanstring (escape_char 13 @ r) = cons_char 13 (scanstring r)"
  "scanstring (escape_char 9 @ r) = cons_char 9 (scanstring r)"
  by (simp_all add: escape_char_def backslash_def)

lemma scanstring_escape_char:
  assumes "is_scalar c"
  shows "scanstring (escape_char c @ r) = cons_char c (scanstring r)"
proof -
  consider (short) "c = 92 \<or> c = 34 \<or> c = 8 \<or> c = 12 \<or> c = 10 \<or> c = 13 \<or> c = 9"
    | (plain) "\<not> (c = 92 \<or> c = 34 \<or> c = 8 \<or> c = 12 \<or> c = 10 \<or> c = 13 \<or> c = 9)"
        "32 \<le> c \<and> c \<le> 126"
    | (bmp) "\<not> (c = 92 \<or> c = 34 \<or> c = 8 \<or> c = 12 \<or> c = 10 \<or> c = 13 \<or> c = 9)"
        "\<not> (32 \<le> c \<and> c \<le> 126)" "c < 65536"
    | (astral) "65536 \<le> c"
    by linarith
  then show ?thesis
  proof cases
    case short
    then show ?thesis using escape_char_short [of r] by blast
  next
    case plain
    then have "escape_char c = [c]" by (simp add: escape_char_def)
    with plain show ?thesis by simp
  next
    case bmp
    from assms have ns: "\<not> (55296 \<le> c \<and> c \<le> 56319)" unfolding is_scalar_def by linarith
    from bmp have "escape_char c = uescape c" by (auto simp: escape_char_def)
    then show ?thesis
      using scanstring_uescape_plain [OF bmp(3) ns, of r] by simp
  next
    case astral
    define n where "n = c - 65536"
    have n: "n < 1048576" "c = 65536 + n" using astral assms by (simp_all add: n_def is_scalar_def)
    define hi where "hi = 55296 + n div 1024 mod 1024"
    define lo where "lo = 56320 + n mod 1024"
    have hi: "55296 \<le> hi" "hi \<le> 56319" unfolding hi_def by simp_all
    have lo: "56320 \<le> lo" "lo \<le> 57343" unfolding lo_def by simp_all
    have "n div 1024 < 1024" using n(1) by simp
    then have v: "(hi - 55296) * 1024 + (lo - 56320) = n"
      unfolding hi_def lo_def by simp
    have "escape_char c = uescape hi @ uescape lo"
      using astral by (simp add: escape_char_def n_def hi_def lo_def Let_def)
    then show ?thesis
      using scanstring_uescape_pair [OF hi lo, of r] v n(2) by simp
  qed
qed

lemma scanstring_body:
  "list_all is_scalar s \<Longrightarrow> scanstring (concat (map escape_char s) @ 34 # r) = Inr (s, r)"
  by (induction s) (simp_all add: scanstring_escape_char cons_char_def)

lemma scanstring_encode_str:
  "list_all is_scalar s \<Longrightarrow> scanstring (tl (encode_str s) @ r) = Inr (s, r)"
  using scanstring_body [of s r] by (simp add: encode_str_def)

lemma encode_str_Cons: "encode_str s = 34 # tl (encode_str s)"
  by (simp add: encode_str_def)

subsection \<open>Numbers\<close>

lemma takeWhile_digit_append:
  assumes "num_delim r"
  shows "takeWhile is_digit (s @ r) = takeWhile is_digit s"
    and "dropWhile is_digit (s @ r) = dropWhile is_digit s @ r"
proof -
  have r: "takeWhile is_digit r = []" "dropWhile is_digit r = r"
    using assms by (cases r; simp add: num_delim_def)+
  show "takeWhile is_digit (s @ r) = takeWhile is_digit s"
    by (induction s) (simp_all add: r)
  show "dropWhile is_digit (s @ r) = dropWhile is_digit s @ r"
    by (induction s) (simp_all add: r)
qed

lemma match_int_part_append:
  assumes "num_delim r"
  shows "match_int_part (s @ r) = map_option (\<lambda>(a, b). (a, b @ r)) (match_int_part s)"
proof (cases s)
  case Nil
  with assms show ?thesis
    by (cases r) (auto simp: Let_def match_int_part_def num_delim_def is_digit_def)
next
  case (Cons c cs)
  show ?thesis
  proof (cases "c = 45")
    case True
    show ?thesis
    proof (cases cs)
      case Nil
      with True Cons assms show ?thesis
        by (cases r) (auto simp: Let_def match_int_part_def num_delim_def is_digit_def)
    next
      case (Cons d ds)
      with True \<open>s = c # cs\<close> show ?thesis
        using takeWhile_digit_append [OF assms, of "d # ds"]
        by (auto simp: Let_def match_int_part_def)
    qed
  next
    case False
    with Cons show ?thesis
      using takeWhile_digit_append [OF assms, of "c # cs"]
      by (auto simp: Let_def match_int_part_def)
  qed
qed

lemma match_frac_append:
  assumes "num_delim r"
  shows "match_frac (s @ r) = (fst (match_frac s), snd (match_frac s) @ r)"
proof (cases s)
  case Nil
  with assms show ?thesis
    by (cases r; cases "tl r") (auto simp: Let_def match_frac_def num_delim_def)
next
  case (Cons c cs)
  show ?thesis
  proof (cases cs)
    case Nil
    with Cons assms show ?thesis
      by (cases r) (auto simp: Let_def match_frac_def num_delim_def)
  next
    case (Cons d ds)
    with \<open>s = c # cs\<close> show ?thesis
      using takeWhile_digit_append [OF assms, of "d # ds"]
      by (auto simp: Let_def match_frac_def)
  qed
qed

lemma match_exp_append:
  assumes "num_delim r"
  shows "match_exp (s @ r) = (fst (match_exp s), snd (match_exp s) @ r)"
proof (cases s)
  case Nil
  with assms show ?thesis
    by (cases r) (auto simp: Let_def match_exp_def num_delim_def)
next
  case (Cons e cs)
  note s = Cons
  show ?thesis
  proof (cases "e = 101 \<or> e = 69")
    case False
    with s show ?thesis by (auto simp: Let_def match_exp_def)
  next
    case True
    show ?thesis
    proof (cases cs)
      case Nil
      with True s assms show ?thesis
        by (cases r) (auto simp: Let_def match_exp_def num_delim_def)
    next
      case (Cons c ds)
      note cs = Cons
      show ?thesis
      proof (cases "c = 45 \<or> c = 43")
        case False
        with True s cs show ?thesis
          using takeWhile_digit_append [OF assms, of "c # ds"]
          by (auto simp: Let_def match_exp_def)
      next
        case sg: True
        show ?thesis
        proof (cases ds)
          case Nil
          with sg True s cs assms show ?thesis
            by (cases r) (auto simp: Let_def match_exp_def num_delim_def)
        next
          case (Cons d ds')
          with sg True s cs show ?thesis
            using takeWhile_digit_append [OF assms, of "d # ds'"]
            by (auto simp: Let_def match_exp_def)
        qed
      qed
    qed
  qed
qed

lemma match_number_append:
  assumes "num_delim r"
  shows "match_number (s @ r) = map_option (\<lambda>(v, b). (v, b @ r)) (match_number s)"
proof (cases "match_int_part s")
  case None
  then show ?thesis
    by (simp add: match_number_def match_int_part_append [OF assms])
next
  case (Some p)
  obtain ip r1 where p: "p = (ip, r1)" by (cases p)
  obtain fp r2 where f: "match_frac r1 = (fp, r2)" by (cases "match_frac r1")
  obtain ep r3 where e: "match_exp r2 = (ep, r3)" by (cases "match_exp r2")
  have f': "match_frac (r1 @ r) = (fp, r2 @ r)"
    using match_frac_append [OF assms, of r1] f by simp
  have e': "match_exp (r2 @ r) = (ep, r3 @ r)"
    using match_exp_append [OF assms, of r2] e by simp
  show ?thesis
    using Some by (simp add: match_number_def match_int_part_append [OF assms] p f e f' e')
qed

lemma nat_digits_takeWhile:
  "takeWhile is_digit (nat_digits n) = nat_digits n" "dropWhile is_digit (nat_digits n) = []"
  using nat_digits_all_digits [of _ n] by (auto simp: is_digit_def takeWhile_eq_all_conv)

lemma nat_digits_hd:
  "\<exists>d ds. nat_digits n = d # ds \<and> is_digit d \<and> (d = 48 \<longrightarrow> n = 0 \<and> ds = [])"
proof (induction n rule: nat_digits.induct)
  case (1 n)
  show ?case
  proof (cases "n < 10")
    case True
    then show ?thesis by (auto simp: nat_digits.simps [of n] is_digit_def)
  next
    case False
    then have "n div 10 \<noteq> 0" by simp
    with 1 False show ?thesis
      by (auto simp: nat_digits.simps [of n])
  qed
qed

lemma match_int_part_nat_digits:
  "match_int_part (nat_digits n) = Some (nat_digits n, [])"
proof -
  obtain d ds where d: "nat_digits n = d # ds" "is_digit d" "d = 48 \<longrightarrow> n = 0 \<and> ds = []"
    using nat_digits_hd [of n] by blast
  have "d \<noteq> 45" using d(2) by (simp add: is_digit_def)
  then show ?thesis
    using d nat_digits_takeWhile [of n]
    by (auto simp: Let_def match_int_part_def)
qed

lemma match_int_part_neg_nat_digits:
  "match_int_part (45 # nat_digits n) = Some (45 # nat_digits n, [])"
proof -
  obtain d ds where d: "nat_digits n = d # ds" "is_digit d" "d = 48 \<longrightarrow> n = 0 \<and> ds = []"
    using nat_digits_hd [of n] by blast
  then show ?thesis
    using nat_digits_takeWhile [of n]
    by (auto simp: Let_def match_int_part_def)
qed

lemma int_of_token_nat_digits: "int_of_token (nat_digits n) = int n"
proof -
  obtain d ds where d: "nat_digits n = d # ds" "is_digit d"
    using nat_digits_hd [of n] by blast
  then have "d \<noteq> 45" by (simp add: is_digit_def)
  then have "int_of_token (d # ds) = int (digits_value (d # ds))"
    by (simp add: int_of_token_def)
  then show ?thesis
    using digits_value_nat_digits [of n] by (simp add: d(1))
qed

lemma int_of_token_neg_nat_digits: "int_of_token (45 # nat_digits n) = - int n"
  by (simp add: int_of_token_def digits_value_nat_digits)

lemma match_number_str_int: "match_number (str_int i) = Some (JInt i, [])"
proof (cases "i < 0")
  case True
  then show ?thesis
    by (simp add: match_number_def str_int_def match_int_part_neg_nat_digits match_frac_def
        match_exp_def int_of_token_neg_nat_digits)
next
  case False
  then show ?thesis
    by (simp add: match_number_def str_int_def match_int_part_nat_digits match_frac_def
        match_exp_def int_of_token_nat_digits)
qed

lemma fuel_of_pos: "0 < fuel_of v"
  by (cases v) simp_all

lemma fuel_bound:
  "fuel_of v \<le> 2 * length (dumps v) + 1"
  "fuel_list xs \<le> 2 * length (dumps_list xs) + 2"
  "fuel_items kvs \<le> 2 * length (dumps_items kvs) + 2"
  by (induction v and xs and kvs rule: dumps_dumps_list_dumps_items.induct) simp_all

subsection \<open>The first character of an encoded value\<close>

lemma match_int_part_start:
  assumes "match_int_part t = Some p"
  shows "\<exists>c cs. t = c # cs \<and> (is_digit c \<or> c = 45)"
proof (cases t)
  case Nil
  with assms show ?thesis by (simp add: match_int_part_def)
next
  case (Cons c cs)
  with assms show ?thesis
    by (cases "c = 45") (auto simp: match_int_part_def is_digit_def Let_def split: if_splits)
qed

lemma match_number_start:
  assumes "match_number t = Some res"
  shows "\<exists>c cs. t = c # cs \<and> (is_digit c \<or> c = 45)"
proof (cases "match_int_part t")
  case None
  with assms show ?thesis by (simp add: match_number_def)
next
  case (Some p)
  then show ?thesis by (rule match_int_part_start)
qed

lemma str_int_start: "\<exists>c cs. str_int i = c # cs \<and> (is_digit c \<or> c = 45)"
  using match_number_start [OF match_number_str_int] .

lemma number_start_value_start: "is_digit c \<or> c = 45 \<Longrightarrow> value_start c"
  by (auto simp: value_start_def is_digit_def is_ws_def)

lemma dumps_start:
  assumes "wf_json v"
  shows "\<exists>c cs. dumps v = c # cs \<and> value_start c"
proof (cases v)
  case (JInt i)
  then show ?thesis using str_int_start [of i] number_start_value_start by auto
next
  case (JFloat t)
  with assms have "match_number t = Some (JFloat t, [])" by (simp add: is_float_literal_def)
  from match_number_start [OF this] JFloat show ?thesis
    using number_start_value_start by auto
qed (auto simp: value_start_def is_ws_def ascii_def encode_str_def)

lemma dumps_list_start:
  assumes "wf_list xs" "xs \<noteq> []"
  shows "\<exists>c cs. dumps_list xs = c # cs \<and> value_start c"
proof -
  obtain x ys where xs: "xs = x # ys" using assms(2) by (cases xs) auto
  with assms have "wf_json x" by simp
  from dumps_start [OF this] obtain c cs where "dumps x = c # cs" "value_start c" by blast
  then show ?thesis using xs by (cases ys) auto
qed

lemma skip_ws_start: "value_start c \<Longrightarrow> skip_ws (c # cs) = c # cs"
  by (simp add: skip_ws_def value_start_def)

lemma skip_ws_space: "skip_ws (32 # cs) = skip_ws cs"
  by (simp add: skip_ws_def is_ws_def)

subsection \<open>The branches of scan_once\<close>

lemma scan_once_string:
  "scan_once (Suc n) (34 # cs) =
     (case scanstring cs of Inl e \<Rightarrow> Inl e | Inr (str, r) \<Rightarrow> Inr (JStr str, r))"
  by simp

lemma scan_once_object_empty: "scan_once (Suc n) (123 # 125 # r) = Inr (JDict [], r)"
  by (simp add: skip_ws_def is_ws_def)

lemma scan_once_object:
  "scan_once (Suc n) (123 # 34 # r) =
     (case parse_object n r of Inl e \<Rightarrow> Inl e | Inr (pairs, r') \<Rightarrow> Inr (JDict (py_dict pairs), r'))"
  by (simp add: skip_ws_def is_ws_def)

lemma scan_once_array_empty: "scan_once (Suc n) (91 # 93 # r) = Inr (JList [], r)"
  by (simp add: skip_ws_def is_ws_def)

lemma scan_once_array:
  assumes "value_start d"
  shows "scan_once (Suc n) (91 # d # r) =
     (case parse_array n (d # r) of Inl e \<Rightarrow> Inl e | Inr (values, r') \<Rightarrow> Inr (JList values, r'))"
  using assms by (simp add: skip_ws_start) (simp add: value_start_def)

lemma scan_once_number:
  assumes "is_digit c \<or> c = 45" "match_number (c # cs) = Some res"
  shows "scan_once (Suc n) (c # cs) = Inr res"
  using assms by (auto simp: is_digit_def)

lemma scan_once_null: "scan_once (Suc n) (ascii ''null'' @ r) = Inr (JNull, r)"
  by (simp add: ascii_def)

lemma scan_once_true: "scan_once (Suc n) (ascii ''true'' @ r) = Inr (JBool True, r)"
  by (simp add: ascii_def)

lemma scan_once_false: "scan_once (Suc n) (ascii ''false'' @ r) = Inr (JBool False, r)"
  by (simp add: ascii_def)

declare scan_once.simps(2) [simp del]

lemma update_new_key:
  "k \<notin> fst ` set acc \<Longrightarrow> AList.update k v acc = acc @ [(k, v)]"
  by (induction acc) auto

lemma foldl_update_distinct:
  "distinct (map fst (acc @ kvs)) \<Longrightarrow>
     foldl (\<lambda>d (k, v). AList.update k v d) acc kvs = acc @ kvs"
proof (induction kvs arbitrary: acc)
  case Nil
  then show ?case by simp
next
  case (Cons kv kvs)
  obtain k v where kv: "kv = (k, v)" by (cases kv)
  from Cons.prems have "k \<notin> fst ` set acc" by (auto simp: kv)
  then have u: "AList.update k v acc = acc @ [(k, v)]" by (rule update_new_key)
  from Cons.prems have "distinct (map fst ((acc @ [(k, v)]) @ kvs))" by (simp add: kv)
  from Cons.IH [OF this] show ?case by (simp add: kv u)
qed

lemma py_dict_distinct: "distinct (map fst kvs) \<Longrightarrow> py_dict kvs = kvs"
  using foldl_update_distinct [of "[]" kvs] by (simp add: py_dict_def)

lemma num_delim_simps [simp]:
  "num_delim []" "num_delim (93 # r)" "num_delim (125 # r)" "num_delim (44 # r)"
  by (simp_all add: num_delim_def is_digit_def)

lemma skip_ws_simps [simp]:
  "skip_ws (93 # r) = 93 # r" "skip_ws (125 # r) = 125 # r" "skip_ws (44 # r) = 44 # r"
  "skip_ws (58 # r) = 58 # r" "skip_ws (34 # r) = 34 # r" "skip_ws [] = []"
  by (simp_all add: skip_ws_def is_ws_def)

lemma dumps_items_start:
  assumes "kvs \<noteq> []"
  shows "dumps_items kvs = 34 # tl (dumps_items kvs)"
proof -
  obtain k v rest where "kvs = (k, v) # rest" using assms by (cases kvs) auto
  then show ?thesis by (cases rest) (simp_all add: encode_str_def)
qed

lemma scan_roundtrip:
  "wf_json v \<Longrightarrow> fuel_of v \<le> n \<Longrightarrow> num_delim r \<Longrightarrow> scan_once n (dumps v @ r) = Inr (v, r)"
  "xs \<noteq> [] \<Longrightarrow> wf_list xs \<Longrightarrow> fuel_list xs \<le> n \<Longrightarrow>
     parse_array n (dumps_list xs @ 93 # r) = Inr (xs, r)"
  "kvs \<noteq> [] \<Longrightarrow> wf_items kvs \<Longrightarrow> fuel_items kvs \<le> n \<Longrightarrow>
     parse_object n (tl (dumps_items kvs) @ 125 # r) = Inr (kvs, r)"
proof (induction v and xs and kvs arbitrary: n r and n r and n r
    rule: dumps_dumps_list_dumps_items.induct)
  case 1
  then obtain m where "n = Suc m" by (cases n) auto
  then show ?case by (simp add: scan_once_null)
next
  case (2 b)
  then obtain m where "n = Suc m" by (cases n) auto
  then show ?case by (simp add: scan_once_true scan_once_false)
next
  case (3 i)
  then obtain m where n: "n = Suc m" by (cases n) auto
  obtain c cs where c: "str_int i = c # cs" "is_digit c \<or> c = 45"
    using str_int_start [of i] by blast
  have "match_number (str_int i @ r) = Some (JInt i, r)"
    using match_number_append [OF \<open>num_delim r\<close>, of "str_int i"]
    by (simp add: match_number_str_int)
  then have "match_number (c # cs @ r) = Some (JInt i, r)" by (simp add: c(1))
  from scan_once_number [OF c(2) this] show ?case by (simp add: n c(1))
next
  case (4 t)
  then obtain m where n: "n = Suc m" by (cases n) auto
  from 4 have t: "match_number t = Some (JFloat t, [])" by (simp add: is_float_literal_def)
  obtain c cs where c: "t = c # cs" "is_digit c \<or> c = 45"
    using match_number_start [OF t] by blast
  have "match_number (t @ r) = Some (JFloat t, r)"
    using match_number_append [OF \<open>num_delim r\<close>, of t] by (simp add: t)
  then have "match_number (c # cs @ r) = Some (JFloat t, r)" by (simp add: c(1))
  from scan_once_number [OF c(2) this] show ?case by (simp add: n c(1))
next
  case (5 s)
  then obtain m where n: "n = Suc m" by (cases n) auto
  from 5 have "list_all is_scalar s" by simp
  from scanstring_body [OF this, of r] show ?case
    by (simp add: n encode_str_def scan_once_string)
next
  case (6 xs)
  then obtain m where n: "n = Suc m" and m: "fuel_list xs \<le> m" by (cases n) auto
  show ?case
  proof (cases "xs = []")
    case True
    then show ?thesis by (simp add: n scan_once_array_empty)
  next
    case False
    from 6 have wf: "wf_list xs" by simp
    obtain c cs where c: "dumps_list xs = c # cs" "value_start c"
      using dumps_list_start [OF wf False] by blast
    have "parse_array m (dumps_list xs @ 93 # r) = Inr (xs, r)"
      using "6.IH" [OF False wf m] .
    then have "parse_array m (c # cs @ 93 # r) = Inr (xs, r)" by (simp add: c(1))
    then show ?thesis
      using scan_once_array [OF c(2), of m "cs @ 93 # r"] by (simp add: n c(1))
  qed
next
  case (7 kvs)
  then obtain m where n: "n = Suc m" and m: "fuel_items kvs \<le> m" by (cases n) auto
  show ?case
  proof (cases "kvs = []")
    case True
    then show ?thesis by (simp add: n scan_once_object_empty)
  next
    case False
    from 7 have wf: "wf_items kvs" and d: "distinct (map fst kvs)" by simp_all
    have "parse_object m (tl (dumps_items kvs) @ 125 # r) = Inr (kvs, r)"
      using "7.IH" [OF False wf m] .
    then have "scan_once (Suc m) (123 # 34 # tl (dumps_items kvs) @ 125 # r) = Inr (JDict kvs, r)"
      by (simp add: scan_once_object py_dict_distinct [OF d])
    moreover have "dumps (JDict kvs) @ r = 123 # 34 # tl (dumps_items kvs) @ 125 # r"
      using dumps_items_start [OF False] by (metis append_Cons append_Nil append_assoc dumps.simps(7))
    ultimately show ?thesis by (simp only: n)
  qed
next
  case 8
  then show ?case by simp
next
  case (9 x)
  then obtain m where n: "n = Suc m" and m: "fuel_of x \<le> m" by (cases n) auto
  from 9 have wf: "wf_json x" by simp
  have "scan_once m (dumps x @ 93 # r) = Inr (x, 93 # r)"
    using "9.IH" [OF wf m] by simp
  then show ?case by (simp add: n)
next
  case (10 x y ys)
  then obtain m where n: "n = Suc m" and m: "fuel_of x \<le> m" "fuel_list (y # ys) \<le> m"
    by (cases n) auto
  from 10 have wf: "wf_json x" "wf_list (y # ys)" by simp_all
  obtain c cs where c: "dumps_list (y # ys) = c # cs" "value_start c"
    using dumps_list_start [OF wf(2)] by blast
  have a: "scan_once m (dumps x @ 44 # 32 # dumps_list (y # ys) @ 93 # r)
      = Inr (x, 44 # 32 # dumps_list (y # ys) @ 93 # r)"
    using "10.IH"(1) [OF wf(1) m(1)] by simp
  have b: "parse_array m (dumps_list (y # ys) @ 93 # r) = Inr (y # ys, r)"
    using "10.IH"(2) [OF _ wf(2) m(2)] by simp
  have s: "skip_ws (32 # dumps_list (y # ys) @ 93 # r) = dumps_list (y # ys) @ 93 # r"
    by (simp add: skip_ws_space c(1) skip_ws_start [OF c(2)])
  show ?case
    using a b s by (simp add: n del: dumps_list.simps) (simp add: a b s)
next
  case 11
  then show ?case by simp
next
  case (12 k v)
  then obtain m where n: "n = Suc m" and m: "fuel_of v \<le> m" by (cases n) auto
  from 12 have wf: "list_all is_scalar k" "wf_json v" by simp_all
  obtain c cs where c: "dumps v = c # cs" "value_start c"
    using dumps_start [OF wf(2)] by blast
  have a: "scanstring (tl (encode_str k) @ 58 # 32 # dumps v @ 125 # r)
      = Inr (k, 58 # 32 # dumps v @ 125 # r)"
    by (rule scanstring_encode_str [OF wf(1)])
  have b: "scan_once m (dumps v @ 125 # r) = Inr (v, 125 # r)"
    using "12.IH" [OF wf(2) m] by simp
  have s: "skip_ws (32 # dumps v @ 125 # r) = dumps v @ 125 # r"
    by (simp add: skip_ws_space c(1) skip_ws_start [OF c(2)])
  have t: "tl (dumps_items [(k, v)]) @ 125 # r = tl (encode_str k) @ 58 # 32 # dumps v @ 125 # r"
    by (simp add: encode_str_def)
  show ?case
    unfolding t n by (simp add: a b s)
next
  case (13 k v kv kvs)
  then obtain m where n: "n = Suc m" and m: "fuel_of v \<le> m" "fuel_items (kv # kvs) \<le> m"
    by (cases n) auto
  from 13 have wf: "list_all is_scalar k" "wf_json v" "wf_items (kv # kvs)" by simp_all
  obtain c cs where c: "dumps v = c # cs" "value_start c"
    using dumps_start [OF wf(2)] by blast
  let ?rest = "dumps_items (kv # kvs) @ 125 # r"
  have a: "scanstring (tl (encode_str k) @ 58 # 32 # dumps v @ 44 # 32 # ?rest)
      = Inr (k, 58 # 32 # dumps v @ 44 # 32 # ?rest)"
    by (rule scanstring_encode_str [OF wf(1)])
  have b: "scan_once m (dumps v @ 44 # 32 # ?rest) = Inr (v, 44 # 32 # ?rest)"
    using "13.IH"(1) [OF wf(2) m(1)] by simp
  have s: "skip_ws (32 # dumps v @ 44 # 32 # ?rest) = dumps v @ 44 # 32 # ?rest"
    by (simp add: skip_ws_space c(1) skip_ws_start [OF c(2)])
  have q: "?rest = 34 # tl (dumps_items (kv # kvs)) @ 125 # r"
    using dumps_items_start [of "kv # kvs"] by (metis append_Cons list.distinct(1))
  have p: "parse_object m (tl (dumps_items (kv # kvs)) @ 125 # r) = Inr (kv # kvs, r)"
    using "13.IH"(2) [OF _ wf(3) m(2)] by simp
  have s2: "skip_ws (32 # ?rest) = 34 # tl (dumps_items (kv # kvs)) @ 125 # r"
    by (subst q) (simp add: skip_ws_space)
  have t: "tl (dumps_items ((k, v) # kv # kvs)) @ 125 # r
      = tl (encode_str k) @ 58 # 32 # dumps v @ 44 # 32 # ?rest"
    by (simp add: encode_str_def)
  show ?case
    unfolding t n by (simp add: a b s s2 p del: dumps_items.simps)
qed

lemma json_loads_dumps:
  assumes "wf_json v"
  shows "json_loads (dumps v) = Inr v"
proof -
  obtain c cs where c: "dumps v = c # cs" "value_start c"
    using dumps_start [OF assms] by blast
  have s: "skip_ws (dumps v) = dumps v"
    by (simp add: c(1) skip_ws_start [OF c(2)])
  have "fuel_of v \<le> 2 * length (dumps v) + 2"
    using fuel_bound(1) [of v] by simp
  from scan_roundtrip(1) [OF assms this, of "[]"] show ?thesis
    by (simp add: json_loads_def s)
qed

section \<open>Properties of the message protocol\<close>

subsection \<open>Length prefix\<close>

lemma unat_of_nat_byte: "n < 256 \<Longrightarrow> unat (of_nat n :: byte) = n"
  by (simp add: unat_of_nat)

lemma base256_value:
  assumes "n < (4294967296::nat)"
  shows "((n div 16777216 * 256 + n div 65536 mod 256) * 256 + n div 256 mod 256) * 256
           + n mod 256 = n"
proof -
  define q1 where "q1 = n div 16777216"
  define q2 where "q2 = n div 65536"
  define q3 where "q3 = n div 256"
  define r1 where "r1 = n div 65536 mod 256"
  define r2 where "r2 = n div 256 mod 256"
  define r3 where "r3 = n mod 256"
  have e1: "n div 65536 div 256 = n div 16777216" "n div 256 div 256 = n div 65536"
    by (simp_all add: div_mult2_eq [symmetric])
  have b: "q2 = q1 * 256 + r1"
    unfolding q1_def q2_def r1_def
    using div_mult_mod_eq [of "n div 65536" 256] by (simp only: e1)
  have c: "q3 = q2 * 256 + r2"
    unfolding q2_def q3_def r2_def
    using div_mult_mod_eq [of "n div 256" 256] by (simp only: e1)
  have d: "n = q3 * 256 + r3"
    unfolding q3_def r3_def by simp
  have "((q1 * 256 + r1) * 256 + r2) * 256 + r3 = n"
    by (simp add: d c b)
  then show ?thesis
    unfolding q1_def r1_def r2_def r3_def .
qed

lemma unpack_pack_I:
  assumes "n < 4294967296"
  shows "\<exists>bs. pack_I n = Inr bs \<and> length bs = 4 \<and> unpack_I bs = Inr n"
proof -
  define a where "a = n div 16777216"
  define b where "b = n div 65536 mod 256"
  define c where "c = n div 256 mod 256"
  define d where "d = n mod 256"
  have lt: "a < 256" "b < 256" "c < 256" "d < 256"
    using assms by (simp_all add: a_def b_def c_def d_def)
  have v: "((a * 256 + b) * 256 + c) * 256 + d = n"
    using base256_value [OF assms] unfolding a_def b_def c_def d_def .
  have p: "pack_I n = Inr [of_nat a, of_nat b, of_nat c, of_nat d]"
    using assms by (simp add: pack_I_def a_def b_def c_def d_def del: of_nat_div)
  have "unpack_I [of_nat a, of_nat b, of_nat c, of_nat d]
      = Inr (((a * 256 + b) * 256 + c) * 256 + d)"
    by (simp add: unpack_I_def unat_of_nat_byte lt)
  then have "unpack_I [of_nat a, of_nat b, of_nat c, of_nat d] = Inr n"
    by (simp only: v)
  with p show ?thesis by simp
qed

lemma pack_I_Inr:
  "pack_I n = Inr bs \<Longrightarrow> n < 4294967296 \<and> length bs = 4 \<and> unpack_I bs = Inr n"
  using unpack_pack_I [of n] by (auto simp: pack_I_def split: if_splits)

subsection \<open>The encoder prints printable ASCII only\<close>

lemma printable_append [simp]: "printable (a @ b) \<longleftrightarrow> printable a \<and> printable b"
  by (simp add: printable_def)

lemma printable_Nil [simp]: "printable []"
  by (simp add: printable_def)

lemma printable_Cons: "printable (c # cs) \<longleftrightarrow> 32 \<le> c \<and> c \<le> 126 \<and> printable cs"
  by (simp add: printable_def)

lemma printable_digits: "\<forall>c\<in>set s. is_digit c \<Longrightarrow> printable s"
  by (auto simp: printable_def is_digit_def list_all_iff)

lemma printable_takeWhile_digit: "printable (takeWhile is_digit s)"
  by (rule printable_digits) (auto dest: set_takeWhileD)

lemma printable_hexdigit: "d < 16 \<Longrightarrow> 32 \<le> hexdigit d \<and> hexdigit d \<le> 126"
  by (simp add: hexdigit_def)

lemma printable_uescape: "printable (uescape n)"
  by (simp add: uescape_def hex4_def printable_Cons printable_hexdigit)

lemma printable_escape_char: "printable (escape_char c)"
  by (simp add: escape_char_def printable_uescape printable_Cons Let_def)

lemma printable_encode_str: "printable (encode_str s)"
proof -
  have "printable (concat (map escape_char s))"
    by (induction s) (simp_all add: printable_escape_char)
  then show ?thesis by (simp add: encode_str_def printable_Cons)
qed

lemma printable_nat_digits: "printable (nat_digits n)"
  by (rule printable_digits) (use nat_digits_all_digits in \<open>auto simp: is_digit_def\<close>)

lemma printable_str_int: "printable (str_int i)"
  by (simp add: str_int_def printable_nat_digits printable_Cons)

lemma printable_match_int_part:
  "match_int_part s = Some (ip, r) \<Longrightarrow> printable ip"
  by (cases s)
     (auto simp: match_int_part_def Let_def printable_Cons printable_takeWhile_digit is_digit_def
       split: if_splits list.splits)

lemma printable_match_frac: "printable (fst (match_frac s))"
  by (auto simp: match_frac_def printable_Cons printable_takeWhile_digit is_digit_def
      split: list.splits)

lemma printable_match_exp: "printable (fst (match_exp s))"
  by (auto simp: match_exp_def Let_def printable_Cons printable_takeWhile_digit is_digit_def
      split: list.splits)

lemma printable_float_literal:
  assumes "is_float_literal t"
  shows "printable t"
proof -
  from assms have m: "match_number t = Some (JFloat t, [])" by (simp add: is_float_literal_def)
  then obtain ip r1 where ip: "match_int_part t = Some (ip, r1)"
    by (cases "match_int_part t") (auto simp: match_number_def)
  obtain fp r2 where f: "match_frac r1 = (fp, r2)" by (cases "match_frac r1")
  obtain ep r3 where e: "match_exp r2 = (ep, r3)" by (cases "match_exp r2")
  from m have "t = ip @ fp @ ep"
    by (auto simp: match_number_def ip f e split: if_splits)
  moreover have "printable ip" using ip by (rule printable_match_int_part)
  moreover have "printable fp" using printable_match_frac [of r1] by (simp add: f)
  moreover have "printable ep" using printable_match_exp [of r2] by (simp add: e)
  ultimately show ?thesis by simp
qed

lemma printable_dumps:
  "wf_json v \<Longrightarrow> printable (dumps v)"
  "wf_list xs \<Longrightarrow> printable (dumps_list xs)"
  "wf_items kvs \<Longrightarrow> printable (dumps_items kvs)"
  by (induction v and xs and kvs rule: dumps_dumps_list_dumps_items.induct)
     (simp_all add: printable_Cons printable_encode_str printable_str_int
       printable_float_literal ascii_def)

subsection \<open>UTF-8 on ASCII text\<close>

lemma utf8_encode_printable: "printable s \<Longrightarrow> utf8_encode s = Inr (ascii_bytes s)"
  by (induction s) (simp_all add: printable_Cons utf8_encode_char_def ascii_bytes_def)

lemma utf8_decode_printable: "printable s \<Longrightarrow> utf8_decode (ascii_bytes s) = Inr s"
  by (induction s) (simp_all add: printable_Cons ascii_bytes_def unat_of_nat_byte cons_cp_def)

lemma length_ascii_bytes [simp]: "length (ascii_bytes s) = length s"
  by (simp add: ascii_bytes_def)

subsection \<open>serialize, then deserialize\<close>

lemma MessageType_of_value: "MessageType_of (JInt (MessageType_value ty)) = Some ty"
  by (cases ty) (simp_all add: MessageType_of_def MessageType_of_int_def)

lemma wf_message_dict: "wf_json d \<Longrightarrow> wf_json (JDict [(ascii ''type'', JInt i), (ascii ''data'', d)])"
  by (simp add: ascii_def is_scalar_def)

lemma serialize_frame:
  assumes "wf_json (msg_data m)" "serialize m = Inr frame"
  shows "\<exists>pre. frame = pre @ ascii_bytes (dumps (message_dict m)) \<and> length pre = 4
           \<and> unpack_I pre = Inr (length (dumps (message_dict m)))"
proof -
  have wf: "wf_json (message_dict m)"
    unfolding message_dict_def using assms(1) by (rule wf_message_dict)
  have enc: "utf8_encode (dumps (message_dict m)) = Inr (ascii_bytes (dumps (message_dict m)))"
    by (rule utf8_encode_printable [OF printable_dumps(1) [OF wf]])
  from assms(2) obtain pre where pre: "pack_I (length (dumps (message_dict m))) = Inr pre"
    and f: "frame = pre @ ascii_bytes (dumps (message_dict m))"
    using enc unfolding serialize_def message_dict_def [symmetric] Let_def
    by (auto split: sum.splits)
  from pack_I_Inr [OF pre] f show ?thesis by blast
qed

lemma serialize_succeeds:
  assumes "wf_json (msg_data m)" "length (dumps (message_dict m)) < 4294967296"
  shows "\<exists>frame. serialize m = Inr frame"
proof -
  have wf: "wf_json (message_dict m)"
    unfolding message_dict_def using assms(1) by (rule wf_message_dict)
  have enc: "utf8_encode (dumps (message_dict m)) = Inr (ascii_bytes (dumps (message_dict m)))"
    by (rule utf8_encode_printable [OF printable_dumps(1) [OF wf]])
  obtain pre where "pack_I (length (dumps (message_dict m))) = Inr pre"
    using unpack_pack_I [OF assms(2)] by blast
  then show ?thesis
    unfolding serialize_def message_dict_def [symmetric] Let_def by (simp add: enc)
qed

lemma deserialize_message_dict:
  assumes "wf_json (msg_data m)"
  shows "deserialize (ascii_bytes (dumps (message_dict m))) = Inr m"
proof -
  have wf: "wf_json (message_dict m)"
    unfolding message_dict_def using assms by (rule wf_message_dict)
  have dec: "utf8_decode (ascii_bytes (dumps (message_dict m))) = Inr (dumps (message_dict m))"
    by (rule utf8_decode_printable [OF printable_dumps(1) [OF wf]])
  have loads: "json_loads (dumps (message_dict m)) = Inr (message_dict m)"
    by (rule json_loads_dumps [OF wf])
  have ne: "ascii ''type'' \<noteq> ascii ''data''" by (simp add: ascii_def)
  have g: "py_getitem (message_dict m) (ascii ''type'') = Inr (JInt (MessageType_value (msg_type m)))"
    "py_getitem (message_dict m) (ascii ''data'') = Inr (msg_data m)"
    using ne by (simp_all add: py_getitem_def message_dict_def)
  show ?thesis
    by (simp add: deserialize_def dec loads g MessageType_of_value)
qed

lemma deserialize_serialize:
  assumes "wf_json (msg_data m)" "serialize m = Inr frame"
  shows "deserialize (drop 4 frame) = Inr m"
proof -
  from serialize_frame [OF assms] obtain pre where
    "frame = pre @ ascii_bytes (dumps (message_dict m))" "length pre = 4" by blast
  then have "drop 4 frame = ascii_bytes (dumps (message_dict m))" by simp
  then show ?thesis using deserialize_message_dict [OF assms(1)] by simp
qed

subsection \<open>Reading a frame from a fragmented stream\<close>

lemma recv_concat: "recv k s = (chunk, s') \<Longrightarrow> chunk @ concat s' = concat s"
  by (cases s) (auto simp: recv_def split: if_splits)

lemma recv_length_le: "recv k s = (chunk, s') \<Longrightarrow> length chunk \<le> k"
  by (cases s) (auto simp: recv_def split: if_splits)

lemma recv_nonempty:
  assumes "nonempty_chunks s" "s \<noteq> []" "0 < k" "recv k s = (chunk, s')"
  shows "chunk \<noteq> [] \<and> nonempty_chunks s'"
proof -
  obtain c cs where s: "s = c # cs" using assms(2) by (cases s) auto
  with assms(1) have c: "c \<noteq> []" "nonempty_chunks cs" by (simp_all add: nonempty_chunks_def)
  show ?thesis
  proof (cases "length c \<le> k")
    case True
    with assms(4) s c show ?thesis by (simp add: recv_def)
  next
    case False
    with assms(3,4) s c show ?thesis
      by (auto simp: recv_def nonempty_chunks_def)
  qed
qed

lemma recv_length_complete:
  "nonempty_chunks s \<Longrightarrow> length lb \<le> 4 \<Longrightarrow> 4 \<le> length lb + length (concat s) \<Longrightarrow>
     \<exists>s'. recv_length lb s = (Inr (lb @ take (4 - length lb) (concat s)), s')
          \<and> concat s' = drop (4 - length lb) (concat s) \<and> nonempty_chunks s'"
proof (induction lb s rule: recv_length.induct)
  case (1 lb s)
  show ?case
  proof (cases "length lb < 4")
    case False
    with "1.prems" show ?thesis by (simp add: recv_length.simps [of lb s])
  next
    case True
    obtain chunk s1 where r: "recv (4 - length lb) s = (chunk, s1)"
      by (cases "recv (4 - length lb) s")
    from True "1.prems"(3) have "s \<noteq> []" by auto
    from recv_nonempty [OF "1.prems"(1) this _ r] True
    have ne: "chunk \<noteq> []" "nonempty_chunks s1" by simp_all
    have cc: "chunk @ concat s1 = concat s" using r by (rule recv_concat)
    have le: "length chunk \<le> 4 - length lb" using r by (rule recv_length_le)
    have l4: "length (lb @ chunk) \<le> 4" using le True by simp
    have tot: "4 \<le> length (lb @ chunk) + length (concat s1)"
      using "1.prems"(3) cc by (metis add.assoc length_append)
    from "1.IH" [OF True r [symmetric] ne(1) ne(2) l4 tot]
    obtain s' where s': "recv_length (lb @ chunk) s1
        = (Inr ((lb @ chunk) @ take (4 - length (lb @ chunk)) (concat s1)), s')"
      "concat s' = drop (4 - length (lb @ chunk)) (concat s1)" "nonempty_chunks s'"
      by blast
    have t: "(lb @ chunk) @ take (4 - length (lb @ chunk)) (concat s1)
        = lb @ take (4 - length lb) (concat s)"
      using le unfolding cc [symmetric] by (simp add: take_append)
    have d: "drop (4 - length (lb @ chunk)) (concat s1) = drop (4 - length lb) (concat s)"
      using le unfolding cc [symmetric] by simp
    show ?thesis
      using True r ne(1) s' t d by (simp add: recv_length.simps [of lb s])
  qed
qed

lemma recv_length_short:
  "length lb + length (concat s) < 4 \<Longrightarrow> fst (recv_length lb s) = Inl ConnectionError"
proof (induction lb s rule: recv_length.induct)
  case (1 lb s)
  then have lt: "length lb < 4" by simp
  obtain chunk s1 where r: "recv (4 - length lb) s = (chunk, s1)"
    by (cases "recv (4 - length lb) s")
  have cc: "chunk @ concat s1 = concat s" using r by (rule recv_concat)
  show ?case
  proof (cases "chunk = []")
    case True
    with lt r show ?thesis by (simp add: recv_length.simps [of lb s])
  next
    case False
    have "length (lb @ chunk) + length (concat s1) < 4"
      using "1.prems" cc by (metis add.assoc length_append)
    from "1.IH" [OF lt r [symmetric] False this] show ?thesis
      using lt r False by (simp add: recv_length.simps [of lb s])
  qed
qed

lemma recv_data_complete:
  "nonempty_chunks s \<Longrightarrow> length data \<le> len \<Longrightarrow> len \<le> length data + length (concat s) \<Longrightarrow>
     \<exists>s'. recv_data len data s = (Inr (data @ take (len - length data) (concat s)), s')
          \<and> concat s' = drop (len - length data) (concat s) \<and> nonempty_chunks s'"
proof (induction len data s rule: recv_data.induct)
  case (1 len data s)
  show ?case
  proof (cases "length data < len")
    case False
    with "1.prems" show ?thesis by (simp add: recv_data.simps [of len data s])
  next
    case True
    let ?k = "min (len - length data) 4096"
    obtain chunk s1 where r: "recv ?k s = (chunk, s1)"
      by (cases "recv ?k s")
    from True "1.prems"(3) have "s \<noteq> []" by auto
    from recv_nonempty [OF "1.prems"(1) this _ r] True
    have ne: "chunk \<noteq> []" "nonempty_chunks s1" by simp_all
    have cc: "chunk @ concat s1 = concat s" using r by (rule recv_concat)
    have le: "length chunk \<le> len - length data" using recv_length_le [OF r] by simp
    have l4: "length (data @ chunk) \<le> len" using le True by simp
    have tot: "len \<le> length (data @ chunk) + length (concat s1)"
      using "1.prems"(3) cc by (metis add.assoc length_append)
    from "1.IH" [OF True r [symmetric] ne(1) ne(2) l4 tot]
    obtain s' where s': "recv_data len (data @ chunk) s1
        = (Inr ((data @ chunk) @ take (len - length (data @ chunk)) (concat s1)), s')"
      "concat s' = drop (len - length (data @ chunk)) (concat s1)" "nonempty_chunks s'"
      by blast
    have t: "(data @ chunk) @ take (len - length (data @ chunk)) (concat s1)
        = data @ take (len - length data) (concat s)"
      using le unfolding cc [symmetric] by (simp add: take_append)
    have d: "drop (len - length (data @ chunk)) (concat s1) = drop (len - length data) (concat s)"
      using le unfolding cc [symmetric] by simp
    show ?thesis
      using True r ne(1) s' t d by (simp add: recv_data.simps [of len data s])
  qed
qed

lemma recv_data_short:
  "length data + length (concat s) < len \<Longrightarrow> fst (recv_data len data s) = Inl ConnectionError"
proof (induction len data s rule: recv_data.induct)
  case (1 len data s)
  then have lt: "length data < len" by simp
  let ?k = "min (len - length data) 4096"
  obtain chunk s1 where r: "recv ?k s = (chunk, s1)"
    by (cases "recv ?k s")
  have cc: "chunk @ concat s1 = concat s" using r by (rule recv_concat)
  show ?case
  proof (cases "chunk = []")
    case True
    with lt r show ?thesis by (simp add: recv_data.simps [of len data s])
  next
    case False
    have "length (data @ chunk) + length (concat s1) < len"
      using "1.prems" cc by (metis add.assoc length_append)
    from "1.IH" [OF lt r [symmetric] False this] show ?thesis
      using lt r False by (simp add: recv_data.simps [of len data s])
  qed
qed

lemma nonempty_chunks_concat_Nil: "nonempty_chunks s \<Longrightarrow> concat s = [] \<Longrightarrow> s = []"
  by (cases s) (auto simp: nonempty_chunks_def)

lemma wf_msg0: "wf_json (msg_data msg0)"
  by (simp add: msg0_def is_float_literal_def match_number_def match_int_part_def match_frac_def
      match_exp_def ascii_def is_digit_def is_scalar_def Let_def)

lemma dumps_msg0:
  "dumps (message_dict msg0)
     = ascii ''{\"type\": 1, \"data\": {\"symbol\": \"AAPL\", \"price\": 150.0}}''"
  by (simp add: message_dict_def msg0_def ascii_def encode_str_def escape_char_def str_int_def
      nat_digits.simps)

lemma serialize_msg0: "\<exists>frame. serialize msg0 = Inr frame"
  by (rule serialize_succeeds [OF wf_msg0]) (simp add: dumps_msg0 ascii_def)

text \<open>
  C1. For a message whose payload is a JSON value (None, booleans, ints, finite floats,
  strings of Unicode scalar values, lists, dictionaries with distinct string keys),
  deserializing the bytes after the 4-byte length prefix of its serialization gives back
  the message: the same kind and the same payload.
\<close>

theorem C1_serialize_deserialize_roundtrip:
  assumes "wf_json (msg_data m)" "serialize m = Inr frame"
  shows "deserialize (drop 4 frame) = Inr m
       \<and> (\<exists>m'. deserialize (drop 4 frame) = Inr m' \<and> msg_type m' = msg_type m
                \<and> msg_data m' = msg_data m)"
  using deserialize_serialize [OF assms] by simp

theorem C1_serialize_deserialize_roundtrip_witness:
  "wf_json (msg_data msg0)
   \<and> (\<exists>frame. serialize msg0 = Inr frame \<and> deserialize (drop 4 frame) = Inr msg0)"
proof -
  obtain frame where f: "serialize msg0 = Inr frame" using serialize_msg0 by blast
  from C1_serialize_deserialize_roundtrip [OF wf_msg0 f] f wf_msg0 show ?thesis by blast
qed

text \<open>
  C2. Let the stream deliver the frame of a message in non-empty chunks of any sizes.
  If the chunks make up the whole frame, \<open>read_message\<close> returns the message and the
  number of bytes L + 4, where L is the length the prefix encodes, and leaves nothing in
  the stream. If the stream ends before the whole frame is delivered, inside the prefix
  or inside the body, \<open>read_message\<close> fails with ConnectionError.
\<close>

theorem C2_read_message_fragmented:
  assumes "wf_json (msg_data m)" "serialize m = Inr frame" "nonempty_chunks chunks"
  shows "\<exists>L. unpack_I (take 4 frame) = Inr L \<and> length frame = L + 4
           \<and> (concat chunks = frame \<longrightarrow> read_message chunks = (Inr (m, L + 4), []))
           \<and> (\<forall>k < L + 4. concat chunks = take k frame \<longrightarrow>
                 fst (read_message chunks) = Inl ConnectionError)"
proof -
  from serialize_frame [OF assms(1,2)] obtain pre where
    f: "frame = pre @ ascii_bytes (dumps (message_dict m))" and lp: "length pre = 4"
    and u: "unpack_I pre = Inr (length (dumps (message_dict m)))" by blast
  let ?body = "ascii_bytes (dumps (message_dict m))"
  let ?L = "length (dumps (message_dict m))"
  have t4: "take 4 frame = pre" and d4: "drop 4 frame = ?body" using f lp by simp_all
  have len: "length frame = ?L + 4" using f lp by simp
  have des: "deserialize ?body = Inr m" by (rule deserialize_message_dict [OF assms(1)])
  have ok: "read_message chunks = (Inr (m, ?L + 4), [])" if c: "concat chunks = frame"
  proof -
    have "4 \<le> length [] + length (concat chunks)" using c len by simp
    from recv_length_complete [OF assms(3) _ this]
    obtain s1 where s1: "recv_length [] chunks = (Inr pre, s1)" "concat s1 = ?body"
      "nonempty_chunks s1"
      using c t4 d4 by auto
    have "?L \<le> length [] + length (concat s1)" using s1(2) by simp
    from recv_data_complete [OF s1(3) _ this]
    obtain s2 where s2: "recv_data ?L [] s1 = (Inr ?body, s2)" "concat s2 = []"
      "nonempty_chunks s2"
      using s1(2) by auto
    have "s2 = []" using s2(3,2) by (rule nonempty_chunks_concat_Nil)
    then show ?thesis
      by (simp add: read_message_def s1(1) u s2(1) des)
  qed
  have bad: "fst (read_message chunks) = Inl ConnectionError"
    if k: "k < ?L + 4" and c: "concat chunks = take k frame" for k
  proof (cases "k < 4")
    case True
    then have "length [] + length (concat chunks) < 4" using c len by simp
    from recv_length_short [OF this] show ?thesis
      by (cases "recv_length [] chunks") (auto simp: read_message_def)
  next
    case False
    then have "4 \<le> length [] + length (concat chunks)" using c len k by simp
    from recv_length_complete [OF assms(3) _ this]
    obtain s1 where s1: "recv_length [] chunks = (Inr (take 4 (concat chunks)), s1)"
      "concat s1 = drop 4 (concat chunks)"
      by auto
    have p: "take 4 (concat chunks) = pre" using c False t4 by (simp add: min_def)
    have "length (concat s1) = k - 4" using s1(2) c len k by simp
    then have "length [] + length (concat s1) < ?L" using k False by simp
    from recv_data_short [OF this] show ?thesis
      by (cases "recv_data ?L [] s1") (auto simp: read_message_def s1(1) p u)
  qed
  from ok bad t4 u len show ?thesis by auto
qed

theorem C2_read_message_fragmented_witness:
  "wf_json (msg_data msg0)
   \<and> (\<exists>frame. serialize msg0 = Inr frame
        \<and> nonempty_chunks (map (\<lambda>b. [b]) frame)
        \<and> concat (map (\<lambda>b. [b]) frame) = frame
        \<and> read_message (map (\<lambda>b. [b]) frame) = (Inr (msg0, length frame), [])
        \<and> nonempty_chunks (map (\<lambda>b. [b]) (take 7 frame))
        \<and> 7 < length frame
        \<and> fst (read_message (map (\<lambda>b. [b]) (take 7 frame))) = Inl ConnectionError)"
proof -
  obtain frame where f: "serialize msg0 = Inr frame" using serialize_msg0 by blast
  have ne: "nonempty_chunks (map (\<lambda>b. [b]) bs)" for bs :: "byte list"
    by (simp add: nonempty_chunks_def list_all_iff)
  have cc: "concat (map (\<lambda>b. [b]) bs) = bs" for bs :: "byte list"
    by (induction bs) simp_all
  from serialize_frame [OF wf_msg0 f] have l: "7 < length frame"
    by (auto simp: dumps_msg0 ascii_def)
  from C2_read_message_fragmented [OF wf_msg0 f ne [of frame]]
  have a: "read_message (map (\<lambda>b. [b]) frame) = (Inr (msg0, length frame), [])"
    using cc [of frame] by auto
  from C2_read_message_fragmented [OF wf_msg0 f ne [of "take 7 frame"]]
  have b: "fst (read_message (map (\<lambda>b. [b]) (take 7 frame))) = Inl ConnectionError"
    using cc [of "take 7 frame"] l by auto
  from f ne cc a b l wf_msg0 show ?thesis by blast
qed

text \<open>
  C8 (as stated). The body \<open>{"type": 1, "data": {}}\<close> carries the tag of MarketData and
  an empty payload, which has none of the fields of a MarketData payload; \<open>deserialize\<close>
  returns it as a message.
\<close>

theorem C8_wrong_shape_accepted_counterexample:
  "\<not> payload_has_shape MARKET_DATA (JDict [])
   \<and> deserialize (ascii_bytes (ascii ''{\"type\": 1, \"data\": {}}''))
       = Inr \<lparr>msg_type = MARKET_DATA, msg_data = JDict []\<rparr>"
proof -
  have "dumps (message_dict \<lparr>msg_type = MARKET_DATA, msg_data = JDict []\<rparr>)
      = ascii ''{\"type\": 1, \"data\": {}}''"
    by (simp add: message_dict_def ascii_def encode_str_def escape_char_def str_int_def
        nat_digits.simps)
  then show ?thesis
    using deserialize_message_dict [of "\<lparr>msg_type = MARKET_DATA, msg_data = JDict []\<rparr>"]
    by (simp add: payload_has_shape_def)
qed

text \<open>
  C8 (amended). \<open>deserialize\<close> checks the type tag only. It returns a message exactly
  when the body is UTF-8 text of a JSON document from which \<open>['type']\<close> and \<open>['data']\<close>
  can be read and whose type value is the value of a MessageType member; the payload is
  returned as it is. In particular the encoding of any JSON payload under any kind is
  accepted.
\<close>

theorem C8_deserialize_checks_tag_only:
  "(deserialize bs = Inr m \<longleftrightarrow>
      (\<exists>txt obj t. utf8_decode bs = Inr txt \<and> json_loads txt = Inr obj
         \<and> py_getitem obj (ascii ''type'') = Inr t \<and> MessageType_of t = Some (msg_type m)
         \<and> py_getitem obj (ascii ''data'') = Inr (msg_data m)))
   \<and> (wf_json d \<longrightarrow>
        deserialize (ascii_bytes (dumps (message_dict \<lparr>msg_type = k, msg_data = d\<rparr>)))
          = Inr \<lparr>msg_type = k, msg_data = d\<rparr>)"
proof (intro conjI impI)
  show "deserialize bs = Inr m \<longleftrightarrow>
      (\<exists>txt obj t. utf8_decode bs = Inr txt \<and> json_loads txt = Inr obj
         \<and> py_getitem obj (ascii ''type'') = Inr t \<and> MessageType_of t = Some (msg_type m)
         \<and> py_getitem obj (ascii ''data'') = Inr (msg_data m))"
    by (cases m) (auto simp: deserialize_def split: sum.splits option.splits)
next
  assume "wf_json d"
  then show "deserialize (ascii_bytes (dumps (message_dict \<lparr>msg_type = k, msg_data = d\<rparr>)))
          = Inr \<lparr>msg_type = k, msg_data = d\<rparr>"
    using deserialize_message_dict [of "\<lparr>msg_type = k, msg_data = d\<rparr>"] by simp
qed

theorem C8_deserialize_checks_tag_only_witness:
  "wf_json (JDict [])
   \<and> \<not> payload_has_shape NEWS_SENTIMENT (JDict [])
   \<and> deserialize (ascii_bytes (dumps (message_dict \<lparr>msg_type = NEWS_SENTIMENT, msg_data = JDict []\<rparr>)))
       = Inr \<lparr>msg_type = NEWS_SENTIMENT, msg_data = JDict []\<rparr>"
proof -
  have w: "wf_json (JDict [])" by simp
  from C8_deserialize_checks_tag_only [of _ _ "JDict []" NEWS_SENTIMENT] w
  show ?thesis by (simp add: payload_has_shape_def)
qed

section \<open>Properties of the shared order-book store\<close>

subsection \<open>The header\<close>

lemma be_value_snoc: "be_value (bs @ [b]) = be_value bs * 256 + unat b"
  by (simp add: be_value_def)

lemma length_be_bytes [simp]: "length (be_bytes k n) = k"
  by (induction k arbitrary: n) simp_all

lemma be_value_be_bytes: "n < 256 ^ k \<Longrightarrow> be_value (be_bytes k n) = n"
proof (induction k arbitrary: n)
  case 0
  then show ?case by (simp add: be_value_def)
next
  case (Suc k)
  then have "n div 256 < 256 ^ k"
    by (simp add: less_mult_imp_div_less mult.commute)
  from Suc.IH [OF this] show ?case
    by (simp add: be_value_snoc unat_of_nat_byte)
qed

lemma unpack_pack_d: "unpack_d (pack_d w) = w"
proof -
  have "unat w < 256 ^ 8" using unsigned_less [of w, where ?'a = nat] by simp
  from be_value_be_bytes [OF this] show ?thesis
    by (simp add: unpack_d_def pack_d_def)
qed

lemma length_pack_d [simp]: "length (pack_d w) = 8"
  by (simp add: pack_d_def)

lemma pack_dII_ok:
  assumes "i1 < 4294967296" "i2 < 4294967296"
  shows "\<exists>h. pack_dII d i1 i2 = Inr h \<and> length h = 16 \<and> unpack_dII h = Inr (d, i1, i2)"
proof -
  obtain b1 where b1: "pack_I i1 = Inr b1" "length b1 = 4" "unpack_I b1 = Inr i1"
    using unpack_pack_I [OF assms(1)] by blast
  obtain b2 where b2: "pack_I i2 = Inr b2" "length b2 = 4" "unpack_I b2 = Inr i2"
    using unpack_pack_I [OF assms(2)] by blast
  show ?thesis
    by (simp add: pack_dII_def unpack_dII_def b1 b2 unpack_pack_d)
qed

subsection \<open>The payload\<close>

lemma wf_level_json: "is_float_literal (fst l) \<Longrightarrow> is_float_literal (snd l) \<Longrightarrow> wf_json (level_json l)"
  by (cases l) (simp add: level_json_def)

lemma wf_list_levels: "wf_levels ls \<Longrightarrow> wf_list (map level_json ls)"
  by (induction ls) (simp_all add: wf_levels_def wf_level_json)

lemma wf_orderbook_json:
  "wf_levels bids \<Longrightarrow> wf_levels asks \<Longrightarrow> wf_json (orderbook_json bids asks)"
  by (simp add: orderbook_json_def wf_list_levels ascii_def is_scalar_def)

lemma printable_payload:
  "wf_levels bids \<Longrightarrow> wf_levels asks \<Longrightarrow> printable (payload bids asks)"
  unfolding payload_def by (rule printable_dumps(1) [OF wf_orderbook_json])

lemma length_dumps_list_ge: "length ls \<le> length (dumps_list (map level_json ls))"
proof (induction ls rule: induct_list012)
  case 1
  then show ?case by simp
next
  case (2 x)
  then show ?case by (cases x) (simp add: level_json_def)
next
  case (3 x y zs)
  then show ?case by (cases x) (simp add: level_json_def)
qed

lemma length_payload_ge:
  "length bids \<le> length (payload bids asks)" "length asks \<le> length (payload bids asks)"
  using length_dumps_list_ge [of bids] length_dumps_list_ge [of asks]
  by (simp_all add: payload_def orderbook_json_def)

lemma unpack_all_levels: "unpack_all (map level_json ls) = Inr (map level_pair ls)"
  by (induction ls) (simp_all add: level_json_def level_pair_def unpack2_def py_iter_def
      split: prod.splits)

lemma read_levels_orderbook:
  "read_levels (orderbook_json bids asks) (ascii ''bids'') = Inr (map level_pair bids)"
  "read_levels (orderbook_json bids asks) (ascii ''asks'') = Inr (map level_pair asks)"
  by (simp_all add: read_levels_def orderbook_json_def py_getitem_def py_iter_def
      unpack_all_levels ascii_def)

subsection \<open>What a write leaves in the segment\<close>

lemma utf8_encode_length: "utf8_encode s = Inr bs \<Longrightarrow> length s \<le> length bs"
proof (induction s arbitrary: bs)
  case Nil
  then show ?case by simp
next
  case (Cons c s)
  then obtain b r where b: "utf8_encode_char c = Some b" and r: "utf8_encode s = Inr r"
    and bs: "bs = b @ r"
    by (auto split: option.splits sum.splits)
  have "1 \<le> length b"
    using b by (auto simp: utf8_encode_char_def split: if_splits)
  with Cons.IH [OF r] bs show ?case by simp
qed

lemma write_orderbook_too_large_bytes:
  assumes "utf8_encode (dumps (orderbook_json bids asks)) = Inr json_bytes"
    "MEMORY_SIZE - HEADER_SIZE < length json_bytes"
  shows "write_orderbook ts bids asks m = (Inl ValueError, m)"
  using assms by (simp add: write_orderbook_def Let_def)

lemma write_orderbook_fits_bytes:
  assumes "shm_valid m" "utf8_encode (dumps (orderbook_json bids asks)) = Inr json_bytes"
    "length json_bytes \<le> MEMORY_SIZE - HEADER_SIZE"
  shows "\<exists>h. length h = HEADER_SIZE
          \<and> unpack_dII h = Inr (ts, length bids, length asks)
          \<and> write_orderbook ts bids asks m
              = (Inr (), m\<lparr>buf := h @ json_bytes
                                  @ drop (HEADER_SIZE + length json_bytes) (buf m)\<rparr>)"
proof -
  have len: "length (buf m) = MEMORY_SIZE" using assms(1) by (simp add: shm_valid_def)
  have small: "length json_bytes \<le> 65520"
    using assms(3) by (simp add: MEMORY_SIZE_def HEADER_SIZE_def)
  have "length (payload bids asks) \<le> length json_bytes"
    using utf8_encode_length [OF assms(2)] by (simp add: payload_def)
  then have "length bids < 4294967296" "length asks < 4294967296"
    using length_payload_ge(1) [of bids asks] length_payload_ge(2) [of asks bids] small
    by simp_all
  from pack_dII_ok [OF this, of ts] obtain h where
    h: "pack_dII ts (length bids) (length asks) = Inr h" "length h = 16"
      "unpack_dII h = Inr (ts, length bids, length asks)" by blast
  have s1: "set_slice (buf m) 0 16 h = Inr (h @ drop 16 (buf m))"
    using len h(2) by (simp add: set_slice_def MEMORY_SIZE_def)
  have s2: "set_slice (h @ drop 16 (buf m)) 16 (16 + length json_bytes) json_bytes
            = Inr (h @ json_bytes @ drop (16 + length json_bytes) (buf m))"
    using len h(2) small
    by (simp add: set_slice_def MEMORY_SIZE_def min_def max_def add.commute)
  have "write_orderbook ts bids asks m
      = (Inr (), m\<lparr>buf := h @ json_bytes @ drop (16 + length json_bytes) (buf m)\<rparr>)"
    using assms(3) by (simp add: write_orderbook_def Let_def assms(2) h(1) s1 s2 HEADER_SIZE_def)
  with h(2,3) show ?thesis by (auto simp: HEADER_SIZE_def)
qed

lemma utf8_encode_payload:
  assumes "wf_levels bids" "wf_levels asks"
  shows "utf8_encode (dumps (orderbook_json bids asks)) = Inr (ascii_bytes (payload bids asks))"
  using utf8_encode_printable [OF printable_payload [OF assms]] by (simp add: payload_def)

lemma write_orderbook_fits:
  assumes "shm_valid m" "wf_levels bids" "wf_levels asks"
    "length (payload bids asks) \<le> MEMORY_SIZE - HEADER_SIZE"
  shows "\<exists>h. length h = HEADER_SIZE
          \<and> unpack_dII h = Inr (ts, length bids, length asks)
          \<and> write_orderbook ts bids asks m
              = (Inr (), m\<lparr>buf := h @ ascii_bytes (payload bids asks)
                                  @ drop (HEADER_SIZE + length (payload bids asks)) (buf m)\<rparr>)"
  using write_orderbook_fits_bytes [OF assms(1) utf8_encode_payload [OF assms(2,3)], of ts]
    assms(4) by simp

lemma write_orderbook_valid:
  assumes "shm_valid m"
  shows "shm_valid (snd (write_orderbook ts bids asks m))"
proof -
  have len: "length (buf m) = 65536" using assms by (simp add: shm_valid_def MEMORY_SIZE_def)
  have s: "set_slice b i j bs = Inr b' \<Longrightarrow> length b' = length b" for b i j bs b'
    by (auto simp: set_slice_def Let_def min_def max_def split: if_splits)
  show ?thesis
    using assms
    by (auto simp: write_orderbook_def Let_def shm_valid_def dest!: s
        split: sum.splits if_splits)
qed

subsection \<open>What a read finds\<close>

lemma ascii_bytes_append: "ascii_bytes (a @ b) = ascii_bytes a @ ascii_bytes b"
  by (simp add: ascii_bytes_def)

lemma ascii_bytes_nonzero: "printable s \<Longrightarrow> \<forall>b\<in>set (ascii_bytes s). b \<noteq> 0"
proof (induction s)
  case Nil
  then show ?case by (simp add: ascii_bytes_def)
next
  case (Cons c s)
  then have c: "32 \<le> c" "c \<le> 126" and s: "printable s" by (simp_all add: printable_Cons)
  have "unat (of_nat c :: byte) = c" using c by (simp add: unat_of_nat_byte)
  then have "(of_nat c :: byte) \<noteq> 0" using c by (metis not_numeral_le_zero unat_0)
  then show ?case using Cons.IH [OF s] by (simp add: ascii_bytes_def)
qed

lemma takeWhile_nonzero_ascii:
  "printable s \<Longrightarrow>
     takeWhile (\<lambda>b. b \<noteq> 0) (ascii_bytes s @ rest) = ascii_bytes s @ takeWhile (\<lambda>b. b \<noteq> 0) rest"
  using ascii_bytes_nonzero [of s] by (simp add: takeWhile_append2)

lemma utf8_decode_ascii_append:
  "printable s \<Longrightarrow>
     utf8_decode (ascii_bytes s @ bs)
       = (case utf8_decode bs of Inl e \<Rightarrow> Inl e | Inr t \<Rightarrow> Inr (s @ t))"
  by (induction s)
     (simp_all add: printable_Cons ascii_bytes_def unat_of_nat_byte cons_cp_def split: sum.splits)

lemma scan_once_dict_any_rest:
  assumes "wf_json (JDict kvs)" "fuel_of (JDict kvs) \<le> n"
  shows "scan_once n (dumps (JDict kvs) @ r) = Inr (JDict kvs, r)"
proof -
  from assms(2) obtain k where n: "n = Suc k" and k: "fuel_items kvs \<le> k" by (cases n) auto
  show ?thesis
  proof (cases "kvs = []")
    case True
    then show ?thesis by (simp add: n scan_once_object_empty)
  next
    case False
    from assms(1) have wf: "wf_items kvs" and d: "distinct (map fst kvs)" by simp_all
    have "parse_object k (tl (dumps_items kvs) @ 125 # r) = Inr (kvs, r)"
      by (rule scan_roundtrip(3) [OF False wf k])
    then have "scan_once (Suc k) (123 # 34 # tl (dumps_items kvs) @ 125 # r) = Inr (JDict kvs, r)"
      by (simp add: scan_once_object py_dict_distinct [OF d])
    moreover have "dumps (JDict kvs) @ r = 123 # 34 # tl (dumps_items kvs) @ 125 # r"
      using dumps_items_start [OF False]
      by (metis append_Cons append_Nil append_assoc dumps.simps(7))
    ultimately show ?thesis by (simp only: n)
  qed
qed

lemma json_loads_dict_extra_data:
  assumes "wf_json (JDict kvs)" "\<exists>c\<in>set r. \<not> is_ws c"
  shows "json_loads (dumps (JDict kvs) @ r) = Inl JSONDecodeError"
proof -
  have s: "skip_ws (dumps (JDict kvs) @ r) = dumps (JDict kvs) @ r"
    by (simp add: skip_ws_def is_ws_def)
  have "fuel_of (JDict kvs) \<le> 2 * length (dumps (JDict kvs) @ r) + 2"
    using fuel_bound(1) [of "JDict kvs"] by simp
  from scan_once_dict_any_rest [OF assms(1) this, of r]
  have p: "scan_once (2 * length (dumps (JDict kvs) @ r) + 2) (dumps (JDict kvs) @ r)
      = Inr (JDict kvs, r)" .
  have "skip_ws r \<noteq> []"
    using assms(2) by (auto simp: skip_ws_def dropWhile_eq_Nil_conv)
  then show ?thesis
    unfolding json_loads_def s p by simp
qed

lemma read_orderbook_layout:
  assumes "length h = HEADER_SIZE" "unpack_dII h = Inr (ts, nb, na)" "\<not> double_is_zero ts"
    "printable j" "length (h @ ascii_bytes j @ rest) = MEMORY_SIZE"
  shows "read_orderbook \<lparr>buf = h @ ascii_bytes j @ rest\<rparr> =
     (case utf8_decode (ascii_bytes j @ takeWhile (\<lambda>b. b \<noteq> 0) rest) of
        Inl e \<Rightarrow> Inr None
      | Inr text \<Rightarrow>
          (case json_loads text of
             Inl e \<Rightarrow> if e = JSONDecodeError then Inr None else Inl e
           | Inr data \<Rightarrow>
               (case read_levels data (ascii ''bids'') of
                  Inl e \<Rightarrow> Inl e
                | Inr bids \<Rightarrow>
                    (case read_levels data (ascii ''asks'') of
                       Inl e \<Rightarrow> Inl e
                     | Inr asks \<Rightarrow>
                         Inr (Some \<lparr>snap_timestamp = ts, snap_bids = bids, snap_asks = asks\<rparr>)))))"
proof -
  have g1: "get_slice (h @ ascii_bytes j @ rest) 0 HEADER_SIZE = h"
    using assms(1) by (simp add: get_slice_def)
  have "length (ascii_bytes j @ rest) = MEMORY_SIZE - HEADER_SIZE"
    using assms(1,5) by simp
  then have g2: "get_slice (h @ ascii_bytes j @ rest) HEADER_SIZE
        (HEADER_SIZE + (MEMORY_SIZE - HEADER_SIZE)) = ascii_bytes j @ rest"
    using assms(1) by (simp add: get_slice_def)
  show ?thesis
    using assms(3)
    by (simp add: read_orderbook_def Let_def g1 g2 assms(2) takeWhile_nonzero_ascii [OF assms(4)])
qed

lemma read_after_write_clean:
  assumes "length h = HEADER_SIZE" "unpack_dII h = Inr (ts, nb, na)" "\<not> double_is_zero ts"
    "wf_levels bids" "wf_levels asks"
    "length (h @ ascii_bytes (payload bids asks) @ rest) = MEMORY_SIZE"
    "takeWhile (\<lambda>b. b \<noteq> 0) rest = []"
  shows "read_orderbook \<lparr>buf = h @ ascii_bytes (payload bids asks) @ rest\<rparr>
     = Inr (Some \<lparr>snap_timestamp = ts, snap_bids = map level_pair bids,
                   snap_asks = map level_pair asks\<rparr>)"
proof -
  have pr: "printable (payload bids asks)" by (rule printable_payload [OF assms(4,5)])
  have dec: "utf8_decode (ascii_bytes (payload bids asks)) = Inr (payload bids asks)"
    by (rule utf8_decode_printable [OF pr])
  have loads: "json_loads (payload bids asks) = Inr (orderbook_json bids asks)"
    unfolding payload_def by (rule json_loads_dumps [OF wf_orderbook_json [OF assms(4,5)]])
  show ?thesis
    unfolding read_orderbook_layout [OF assms(1,2,3) pr assms(6)]
    by (simp add: assms(7) dec loads read_levels_orderbook)
qed

lemma read_after_write_stale:
  assumes "length h = HEADER_SIZE" "unpack_dII h = Inr (ts, nb, na)" "\<not> double_is_zero ts"
    "wf_levels bids" "wf_levels asks"
    "length (h @ ascii_bytes (payload bids asks) @ ascii_bytes t @ rest) = MEMORY_SIZE"
    "printable t" "125 \<in> set t"
  shows "read_orderbook \<lparr>buf = h @ ascii_bytes (payload bids asks) @ ascii_bytes t @ rest\<rparr>
     = Inr None"
proof -
  let ?j = "payload bids asks"
  have pr: "printable ?j" by (rule printable_payload [OF assms(4,5)])
  have prt: "printable (?j @ t)" using pr assms(7) by simp
  have tw: "takeWhile (\<lambda>b. b \<noteq> 0) (ascii_bytes t @ rest)
      = ascii_bytes t @ takeWhile (\<lambda>b. b \<noteq> 0) rest"
    by (rule takeWhile_nonzero_ascii [OF assms(7)])
  have wf: "wf_json (orderbook_json bids asks)" by (rule wf_orderbook_json [OF assms(4,5)])
  have bad: "json_loads (?j @ t @ g) = Inl JSONDecodeError" for g
  proof -
    have "\<not> is_ws 125" by (simp add: is_ws_def)
    with assms(8) have "\<exists>c\<in>set (t @ g). \<not> is_ws c" by auto
    from json_loads_dict_extra_data [OF wf [unfolded orderbook_json_def] this]
    show ?thesis by (simp add: payload_def orderbook_json_def)
  qed
  have dec: "utf8_decode (ascii_bytes ?j @ ascii_bytes t @ takeWhile (\<lambda>b. b \<noteq> 0) rest)
      = (case utf8_decode (takeWhile (\<lambda>b. b \<noteq> 0) rest) of Inl e \<Rightarrow> Inl e
         | Inr g \<Rightarrow> Inr (?j @ t @ g))"
    using utf8_decode_ascii_append [OF prt, of "takeWhile (\<lambda>b. b \<noteq> 0) rest"]
    by (simp add: ascii_bytes_append split: sum.splits)
  have len: "length (h @ ascii_bytes ?j @ (ascii_bytes t @ rest)) = MEMORY_SIZE"
    using assms(6) by simp
  show ?thesis
    unfolding read_orderbook_layout [OF assms(1,2,3) pr len] tw dec
    by (simp add: bad split: sum.splits)
qed

subsection \<open>A shorter payload after a longer one\<close>

lemma last_payload: "\<exists>p. payload bids asks = p @ [125]"
  by (simp add: payload_def orderbook_json_def)

lemma shm_update_buf: "m\<lparr>buf := b\<rparr> = \<lparr>buf = b\<rparr>"
  by (cases m) simp

lemma stale_tail_read:
  assumes "shm_valid m" "wf_levels b1" "wf_levels a1" "wf_levels b2" "wf_levels a2"
    "length (payload b2 a2) < length (payload b1 a1)"
    "length (payload b1 a1) \<le> MEMORY_SIZE - HEADER_SIZE"
    "\<not> double_is_zero ts2"
  shows "fst (write_orderbook ts1 b1 a1 m) = Inr ()
       \<and> fst (write_orderbook ts2 b2 a2 (snd (write_orderbook ts1 b1 a1 m))) = Inr ()
       \<and> read_orderbook (snd (write_orderbook ts2 b2 a2 (snd (write_orderbook ts1 b1 a1 m))))
           = Inr None"
proof -
  let ?j1 = "payload b1 a1" and ?j2 = "payload b2 a2"
  let ?R = "drop (HEADER_SIZE + length ?j1) (buf m)"
  let ?t = "drop (length ?j2) ?j1"
  have lenm: "length (buf m) = MEMORY_SIZE" using assms(1) by (simp add: shm_valid_def)
  from write_orderbook_fits [OF assms(1,2,3,7), of ts1] obtain h1 where
    h1: "length h1 = HEADER_SIZE"
    and w1: "write_orderbook ts1 b1 a1 m = (Inr (), \<lparr>buf = h1 @ ascii_bytes ?j1 @ ?R\<rparr>)"
    by (auto simp: shm_update_buf)
  let ?m1 = "\<lparr>buf = h1 @ ascii_bytes ?j1 @ ?R\<rparr>"
  have v1: "shm_valid ?m1"
    using h1 lenm assms(7) by (simp add: shm_valid_def MEMORY_SIZE_def HEADER_SIZE_def)
  have fit2: "length ?j2 \<le> MEMORY_SIZE - HEADER_SIZE" using assms(6,7) by simp
  from write_orderbook_fits [OF v1 assms(4,5) fit2, of ts2] obtain h2 where
    h2: "length h2 = HEADER_SIZE" "unpack_dII h2 = Inr (ts2, length b2, length a2)"
    and w2: "write_orderbook ts2 b2 a2 ?m1
        = (Inr (), \<lparr>buf = h2 @ ascii_bytes ?j2 @ drop (HEADER_SIZE + length ?j2) (buf ?m1)\<rparr>)"
    by (auto simp: shm_update_buf)
  have d: "drop (HEADER_SIZE + length ?j2) (buf ?m1) = ascii_bytes ?t @ ?R"
    using h1 assms(6) by (simp add: ascii_bytes_def drop_map)
  have pt: "printable ?t"
    using printable_payload [OF assms(2,3)]
    by (auto simp: printable_def list_all_iff dest: in_set_dropD)
  obtain p where p: "?j1 = p @ [125]" using last_payload by blast
  have "?t \<noteq> []" using assms(6) by simp
  then have "last ?t = last ?j1" using assms(6) by (simp add: last_drop)
  then have "last ?t = 125" by (simp add: p)
  with \<open>?t \<noteq> []\<close> have in_t: "125 \<in> set ?t" by (metis last_in_set)
  have len2: "length (h2 @ ascii_bytes ?j2 @ ascii_bytes ?t @ ?R) = MEMORY_SIZE"
    using h2(1) lenm assms(6,7) by (simp add: MEMORY_SIZE_def HEADER_SIZE_def)
  have rd: "read_orderbook \<lparr>buf = h2 @ ascii_bytes ?j2 @ ascii_bytes ?t @ ?R\<rparr> = Inr None"
    by (rule read_after_write_stale [OF h2 assms(8,4,5) len2 pt in_t])
  have w2': "write_orderbook ts2 b2 a2 ?m1
      = (Inr (), \<lparr>buf = h2 @ ascii_bytes ?j2 @ ascii_bytes ?t @ ?R\<rparr>)"
    unfolding w2 d ..
  show ?thesis
    unfolding w1 snd_conv fst_conv w2' rd by simp
qed

subsection \<open>A write into a segment that is zero behind the payload\<close>

lemma write_read_clean:
  assumes "shm_valid m" "wf_levels bids" "wf_levels asks"
    "length (payload bids asks) \<le> MEMORY_SIZE - HEADER_SIZE"
    "\<not> double_is_zero ts"
    "takeWhile (\<lambda>b. b \<noteq> 0) (drop (HEADER_SIZE + length (payload bids asks)) (buf m)) = []"
  shows "read_orderbook (snd (write_orderbook ts bids asks m))
     = Inr (Some \<lparr>snap_timestamp = ts, snap_bids = map level_pair bids,
                   snap_asks = map level_pair asks\<rparr>)"
proof -
  let ?j = "payload bids asks"
  let ?R = "drop (HEADER_SIZE + length ?j) (buf m)"
  have lenm: "length (buf m) = MEMORY_SIZE" using assms(1) by (simp add: shm_valid_def)
  from write_orderbook_fits [OF assms(1,2,3,4), of ts] obtain h where
    h: "length h = HEADER_SIZE" "unpack_dII h = Inr (ts, length bids, length asks)"
    and w: "write_orderbook ts bids asks m = (Inr (), \<lparr>buf = h @ ascii_bytes ?j @ ?R\<rparr>)"
    by (auto simp: shm_update_buf)
  have len: "length (h @ ascii_bytes ?j @ ?R) = MEMORY_SIZE"
    using h(1) lenm assms(4) by (simp add: MEMORY_SIZE_def HEADER_SIZE_def)
  show ?thesis
    using read_after_write_clean [OF h assms(5,2,3) len assms(6)] by (simp add: w)
qed

lemma shm_create_valid: "shm_valid shm_create"
  by (simp add: shm_valid_def shm_create_def)

lemma write_read_fresh:
  assumes "wf_levels bids" "wf_levels asks"
    "length (payload bids asks) \<le> MEMORY_SIZE - HEADER_SIZE" "\<not> double_is_zero ts"
  shows "read_orderbook (snd (write_orderbook ts bids asks shm_create))
     = Inr (Some \<lparr>snap_timestamp = ts, snap_bids = map level_pair bids,
                   snap_asks = map level_pair asks\<rparr>)"
proof -
  have "takeWhile (\<lambda>b. b \<noteq> 0) (drop n (replicate k (0::byte))) = []" for n k
    by (induction k arbitrary: n) (simp_all add: drop_Cons split: nat.splits)
  then show ?thesis
    using write_read_clean [OF shm_create_valid assms] by (simp add: shm_create_def)
qed

lemma float_literal_samples:
  "is_float_literal (ascii ''100.0'')" "is_float_literal (ascii ''10.0'')"
  "is_float_literal (ascii ''99.9'')" "is_float_literal (ascii ''20.0'')"
  "is_float_literal (ascii ''100.1'')" "is_float_literal (ascii ''100.2'')"
  "is_float_literal (ascii ''101.0'')" "is_float_literal (ascii ''101.1'')"
  "is_float_literal (ascii ''1.0'')"
  by (simp_all add: is_float_literal_def match_number_def match_int_part_def match_frac_def
      match_exp_def ascii_def is_digit_def Let_def)

lemma wf_samples:
  "wf_levels bids_a" "wf_levels asks_a" "wf_levels bids_b" "wf_levels asks_b" "wf_levels []"
  by (simp_all add: wf_levels_def bids_a_def asks_a_def bids_b_def asks_b_def
      float_literal_samples)

lemma wf_bids_full: "wf_levels bids_full" "wf_levels bids_over"
  by (simp_all add: wf_levels_def bids_full_def bids_over_def list_all_iff float_literal_samples)

lemma length_payload:
  "length (payload bids asks)
     = 24 + length (dumps_list (map level_json bids)) + length (dumps_list (map level_json asks))"
  by (simp add: payload_def orderbook_json_def encode_str_def escape_char_def ascii_def)

lemma length_payload_samples:
  "length (payload bids_a asks_a) = 79" "length (payload bids_b asks_b) = 50"
  by (simp_all add: length_payload bids_a_def asks_a_def bids_b_def asks_b_def level_json_def
      ascii_def)

lemma length_dumps_list_replicate:
  "length (dumps_list (x # replicate k y)) = length (dumps x) + k * (2 + length (dumps y))"
  by (induction k arbitrary: x) simp_all

lemma length_payload_full:
  "length (payload bids_full []) = 65520" "length (payload bids_over []) = 65521"
  by (simp_all add: length_payload bids_full_def bids_over_def length_dumps_list_replicate
      level_json_def ascii_def)

lemma ts_nonzero: "\<not> double_is_zero ts_a" "\<not> double_is_zero ts_b"
  by (simp_all add: double_is_zero_def ts_a_def ts_b_def)

text \<open>
  C3 (failing input). On a new segment, the book of two levels a side is written, then
  the book of one level a side. Both writes succeed; the read that follows returns
  None instead of the snapshot of the second write: the 29 bytes that the first payload
  has beyond the second one are still behind it, and the text up to the first zero byte
  is not a JSON document.
\<close>

theorem C3_shorter_write_after_longer_reads_none:
  "fst (write_orderbook ts_a bids_a asks_a shm_create) = Inr ()
   \<and> fst (write_orderbook ts_b bids_b asks_b
            (snd (write_orderbook ts_a bids_a asks_a shm_create))) = Inr ()
   \<and> read_orderbook (snd (write_orderbook ts_b bids_b asks_b
            (snd (write_orderbook ts_a bids_a asks_a shm_create)))) = Inr None
   \<and> read_orderbook (snd (write_orderbook ts_a bids_a asks_a shm_create))
       = Inr (Some \<lparr>snap_timestamp = ts_a, snap_bids = map level_pair bids_a,
                     snap_asks = map level_pair asks_a\<rparr>)"
proof -
  have lt: "length (payload bids_b asks_b) < length (payload bids_a asks_a)"
    by (simp add: length_payload_samples)
  have fits: "length (payload bids_a asks_a) \<le> MEMORY_SIZE - HEADER_SIZE"
    by (simp add: length_payload_samples MEMORY_SIZE_def HEADER_SIZE_def)
  from stale_tail_read [OF shm_create_valid wf_samples(1,2,3,4) lt fits ts_nonzero(2), of ts_a]
    write_read_fresh [OF wf_samples(1,2) fits ts_nonzero(1)]
  show ?thesis by blast
qed

text \<open>
  C4. With the snapshot encoded to \<open>json_bytes\<close>: a write of at most 65520 bytes
  (the capacity 65536 less the 16 bytes of the header), and so one of exactly 65520 bytes,
  succeeds and puts the bytes behind the header; a write of more than 65520 bytes,
  and so one of 65521 bytes, fails with ValueError and leaves the segment as it was.
\<close>

theorem C4_capacity_boundary:
  assumes "shm_valid m" "utf8_encode (dumps (orderbook_json bids asks)) = Inr json_bytes"
  shows "MEMORY_SIZE - HEADER_SIZE = 65520
       \<and> (length json_bytes \<le> 65520 \<longrightarrow>
            (\<exists>m'. write_orderbook ts bids asks m = (Inr (), m') \<and> shm_valid m'
                \<and> get_slice (buf m') HEADER_SIZE (HEADER_SIZE + length json_bytes) = json_bytes))
       \<and> (length json_bytes = 65520 \<longrightarrow> fst (write_orderbook ts bids asks m) = Inr ())
       \<and> (65520 < length json_bytes \<longrightarrow> write_orderbook ts bids asks m = (Inl ValueError, m))
       \<and> (length json_bytes = 65521 \<longrightarrow> write_orderbook ts bids asks m = (Inl ValueError, m))"
proof -
  have cap: "MEMORY_SIZE - HEADER_SIZE = 65520" by (simp add: MEMORY_SIZE_def HEADER_SIZE_def)
  have big: "write_orderbook ts bids asks m = (Inl ValueError, m)" if "65520 < length json_bytes"
    using write_orderbook_too_large_bytes [OF assms(2)] that cap by simp
  have ok: "\<exists>m'. write_orderbook ts bids asks m = (Inr (), m') \<and> shm_valid m'
                \<and> get_slice (buf m') HEADER_SIZE (HEADER_SIZE + length json_bytes) = json_bytes"
    if le: "length json_bytes \<le> 65520"
  proof -
    from le cap have "length json_bytes \<le> MEMORY_SIZE - HEADER_SIZE" by simp
    from write_orderbook_fits_bytes [OF assms this, of ts] obtain h where
      h: "length h = HEADER_SIZE"
      and w: "write_orderbook ts bids asks m
        = (Inr (), \<lparr>buf = h @ json_bytes @ drop (HEADER_SIZE + length json_bytes) (buf m)\<rparr>)"
      by (auto simp: shm_update_buf)
    have "length (buf m) = 65536" using assms(1) by (simp add: shm_valid_def MEMORY_SIZE_def)
    then have v: "shm_valid \<lparr>buf = h @ json_bytes @ drop (HEADER_SIZE + length json_bytes) (buf m)\<rparr>"
      using h le by (simp add: shm_valid_def MEMORY_SIZE_def HEADER_SIZE_def)
    have g: "get_slice (h @ json_bytes @ drop (HEADER_SIZE + length json_bytes) (buf m))
        HEADER_SIZE (HEADER_SIZE + length json_bytes) = json_bytes"
      using h by (simp add: get_slice_def)
    from w v g show ?thesis by simp
  qed
  from ok have ok2: "fst (write_orderbook ts bids asks m) = Inr ()" if "length json_bytes = 65520"
    using that by auto
  from cap ok ok2 big show ?thesis by simp
qed

theorem C4_capacity_boundary_witness:
  "shm_valid shm_create
   \<and> utf8_encode (dumps (orderbook_json bids_full [])) = Inr (ascii_bytes (payload bids_full []))
   \<and> length (ascii_bytes (payload bids_full [])) = 65520
   \<and> fst (write_orderbook ts_a bids_full [] shm_create) = Inr ()
   \<and> utf8_encode (dumps (orderbook_json bids_over [])) = Inr (ascii_bytes (payload bids_over []))
   \<and> length (ascii_bytes (payload bids_over [])) = 65521
   \<and> write_orderbook ts_a bids_over [] shm_create = (Inl ValueError, shm_create)"
proof -
  have e1: "utf8_encode (dumps (orderbook_json bids_full [])) = Inr (ascii_bytes (payload bids_full []))"
    by (rule utf8_encode_payload [OF wf_bids_full(1) wf_samples(5)])
  have e2: "utf8_encode (dumps (orderbook_json bids_over [])) = Inr (ascii_bytes (payload bids_over []))"
    by (rule utf8_encode_payload [OF wf_bids_full(2) wf_samples(5)])
  have l1: "length (ascii_bytes (payload bids_full [])) = 65520"
    and l2: "length (ascii_bytes (payload bids_over [])) = 65521"
    by (simp_all add: length_payload_full)
  from C4_capacity_boundary [OF shm_create_valid e1, of ts_a] l1
  have a: "fst (write_orderbook ts_a bids_full [] shm_create) = Inr ()" by blast
  from C4_capacity_boundary [OF shm_create_valid e2, of ts_a] l2
  have b: "write_orderbook ts_a bids_over [] shm_create = (Inl ValueError, shm_create)" by blast
  from shm_create_valid e1 e2 l1 l2 a b show ?thesis by blast
qed

section \<open>Properties of the strategy\<close>

lemma get_sentiment_process_news:
  "get_sentiment (process_news d s) symb =
     (if symb = news_symbol d then 3 / 10 * news_score d + 7 / 10 * get_sentiment s symb
      else get_sentiment s symb)"
  by (simp add: process_news_def get_sentiment_def Let_def)


lemma generate_signal_frame:
  "generate_signal now symb p s = Inr (r, s') \<Longrightarrow>
     sentiment_scores s' = sentiment_scores s \<and> last_prices s' = last_prices s"
  by (auto simp: generate_signal_def Let_def split: option.splits if_splits)

lemma process_market_data_sentiment:
  "process_market_data e d s = Inr (out, s') \<Longrightarrow> sentiment_scores s' = sentiment_scores s"
  by (auto simp: process_market_data_def Let_def
      split: if_splits sum.splits option.splits prod.splits dest: generate_signal_frame)

lemma strategy_step_market_data_sentiment:
  "sentiment_scores (snd (strategy_step e (MarketData d) s)) = sentiment_scores s"
  by (cases "process_market_data e d s")
     (auto simp: strategy_step_def dest: process_market_data_sentiment)

lemma get_sentiment_cong:
  "sentiment_scores s' = sentiment_scores s \<Longrightarrow> get_sentiment s' = get_sentiment s"
  by (auto simp: get_sentiment_def fun_eq_iff)

lemma ema_in_range:
  fixes x v :: real
  assumes "- 1 \<le> x" "x \<le> 1" "- 1 \<le> v" "v \<le> 1"
  shows "- 1 \<le> 3 / 10 * x + 7 / 10 * v \<and> 3 / 10 * x + 7 / 10 * v \<le> 1"
  using assms by simp

lemma strategy_step_bounded:
  assumes "score_in_range ev" "sentiment_bounded s"
  shows "sentiment_bounded (snd (strategy_step e ev s))"
proof (cases ev)
  case (MarketData d)
  then show ?thesis
    using assms(2) get_sentiment_cong [OF strategy_step_market_data_sentiment [of e d s]]
    by (simp add: sentiment_bounded_def)
next
  case (NewsSentiment d)
  show ?thesis
    unfolding sentiment_bounded_def
  proof
    fix symb
    have sc: "- 1 \<le> news_score d" "news_score d \<le> 1"
      using assms(1) NewsSentiment by (simp_all add: score_in_range_def)
    have old: "- 1 \<le> get_sentiment s symb" "get_sentiment s symb \<le> 1"
      using assms(2) by (simp_all add: sentiment_bounded_def)
    show "- 1 \<le> get_sentiment (snd (strategy_step e ev s)) symb
        \<and> get_sentiment (snd (strategy_step e ev s)) symb \<le> 1"
      using ema_in_range [OF sc old] old
      by (auto simp: NewsSentiment strategy_step_def get_sentiment_process_news)
  qed
qed (use assms in \<open>simp_all add: strategy_step_def\<close>)

lemma strategy_run_bounded:
  "list_all score_in_range (map snd evs) \<Longrightarrow> sentiment_bounded s \<Longrightarrow>
     sentiment_bounded (strategy_run evs s)"
proof (induction evs s rule: strategy_run.induct)
  case (1 s)
  then show ?case by simp
next
  case (2 e evs s)
  then show ?case by simp
qed (simp_all add: strategy_step_bounded)

lemma sentiment_bounded_init: "sentiment_bounded strategy_init"
  by (simp add: sentiment_bounded_def get_sentiment_def strategy_init_def)

text \<open>
  C10. As long as every NewsSentiment score processed lies in [-1, 1], every sentiment
  value the strategy holds lies in [-1, 1]: a symbol starts at 0.0, the update is a
  convex combination, and the other branches of the loop (market data, shutdown, other
  messages) leave the sentiment map as it is.
\<close>

theorem C10_sentiment_stays_in_unit_interval:
  assumes "list_all score_in_range (map snd evs)"
  shows "- 1 \<le> get_sentiment (strategy_run evs strategy_init) symb
       \<and> get_sentiment (strategy_run evs strategy_init) symb \<le> 1
       \<and> (\<forall>v. sentiment_scores (strategy_run evs strategy_init) symb = Some v \<longrightarrow> - 1 \<le> v \<and> v \<le> 1)
       \<and> get_sentiment strategy_init symb = 0
       \<and> sentiment_scores (snd (strategy_step e (MarketData d) s)) = sentiment_scores s
       \<and> sentiment_scores (snd (strategy_step e Shutdown s)) = sentiment_scores s
       \<and> sentiment_scores (snd (strategy_step e OtherMessage s)) = sentiment_scores s"
proof -
  have b: "sentiment_bounded (strategy_run evs strategy_init)"
    using assms sentiment_bounded_init by (rule strategy_run_bounded)
  then have g: "- 1 \<le> get_sentiment (strategy_run evs strategy_init) symb
       \<and> get_sentiment (strategy_run evs strategy_init) symb \<le> 1"
    by (simp add: sentiment_bounded_def)
  then have "\<forall>v. sentiment_scores (strategy_run evs strategy_init) symb = Some v \<longrightarrow> - 1 \<le> v \<and> v \<le> 1"
    by (auto simp: get_sentiment_def)
  moreover have "get_sentiment strategy_init symb = 0"
    by (simp add: get_sentiment_def strategy_init_def)
  moreover have "sentiment_scores (snd (strategy_step e Shutdown s)) = sentiment_scores s"
    "sentiment_scores (snd (strategy_step e OtherMessage s)) = sentiment_scores s"
    by (simp_all add: strategy_step_def)
  ultimately show ?thesis
    using g strategy_step_market_data_sentiment [of e d s] by blast
qed

theorem C10_sentiment_stays_in_unit_interval_witness:
  "list_all score_in_range (map snd
      [(env0, NewsSentiment \<lparr>news_symbol = AAPL, news_score = 1\<rparr>),
       (env0, MarketData \<lparr>md_symbol = AAPL, md_last_price = Some 100\<rparr>),
       (env0, NewsSentiment \<lparr>news_symbol = AAPL, news_score = 1\<rparr>)])
   \<and> sentiment_scores (strategy_run
      [(env0, NewsSentiment \<lparr>news_symbol = AAPL, news_score = 1\<rparr>),
       (env0, MarketData \<lparr>md_symbol = AAPL, md_last_price = Some 100\<rparr>),
       (env0, NewsSentiment \<lparr>news_symbol = AAPL, news_score = 1\<rparr>)] strategy_init) AAPL = Some (51 / 100)
   \<and> - 1 \<le> get_sentiment (strategy_run
      [(env0, NewsSentiment \<lparr>news_symbol = AAPL, news_score = 1\<rparr>),
       (env0, MarketData \<lparr>md_symbol = AAPL, md_last_price = Some 100\<rparr>),
       (env0, NewsSentiment \<lparr>news_symbol = AAPL, news_score = 1\<rparr>)] strategy_init) AAPL
   \<and> get_sentiment (strategy_run
      [(env0, NewsSentiment \<lparr>news_symbol = AAPL, news_score = 1\<rparr>),
       (env0, MarketData \<lparr>md_symbol = AAPL, md_last_price = Some 100\<rparr>),
       (env0, NewsSentiment \<lparr>news_symbol = AAPL, news_score = 1\<rparr>)] strategy_init) AAPL \<le> 1"
proof -
  let ?evs = "[(env0, NewsSentiment \<lparr>news_symbol = AAPL, news_score = 1\<rparr>),
       (env0, MarketData \<lparr>md_symbol = AAPL, md_last_price = Some 100\<rparr>),
       (env0, NewsSentiment \<lparr>news_symbol = AAPL, news_score = 1\<rparr>)]"
  have h: "list_all score_in_range (map snd ?evs)"
    by (simp add: score_in_range_def)
  have v: "sentiment_scores (strategy_run ?evs strategy_init) AAPL = Some (51 / 100)"
    by (simp add: strategy_step_def process_news_def process_market_data_def
        generate_signal_def get_sentiment_def strategy_init_def no_output_def Let_def)
  from C10_sentiment_stays_in_unit_interval [OF h, of AAPL] h v show ?thesis
    by blast
qed

lemma generate_signal_first:
  "last_prices s symb = None \<Longrightarrow> generate_signal now symb lp s = Inr (None, s)"
  by (simp add: generate_signal_def)

lemma generate_signal_buy:
  assumes "last_prices s symb = Some prev" "prev \<noteq> 0"
    "(lp - prev) / prev > 5 / 1000" "get_sentiment s symb > 3 / 10"
  shows "generate_signal now symb lp s =
     Inr (Some \<lparr>sig_symbol = symb, sig_action = BUY, sig_price = lp,
                 sig_price_change = (lp - prev) / prev, sig_sentiment = get_sentiment s symb,
                 sig_timestamp = now\<rparr>, s\<lparr>signal_count := signal_count s + 1\<rparr>)"
  using assms
  by (simp add: generate_signal_def Let_def PRICE_CHANGE_THRESHOLD_def SENTIMENT_THRESHOLD_def)

lemma generate_signal_sell:
  assumes "last_prices s symb = Some prev" "prev \<noteq> 0"
    "(lp - prev) / prev < - (5 / 1000)" "get_sentiment s symb < - (3 / 10)"
  shows "generate_signal now symb lp s =
     Inr (Some \<lparr>sig_symbol = symb, sig_action = SELL, sig_price = lp,
                 sig_price_change = (lp - prev) / prev, sig_sentiment = get_sentiment s symb,
                 sig_timestamp = now\<rparr>, s\<lparr>signal_count := signal_count s + 1\<rparr>)"
  using assms
  by (simp add: generate_signal_def Let_def PRICE_CHANGE_THRESHOLD_def SENTIMENT_THRESHOLD_def)

lemma generate_signal_none:
  assumes "last_prices s symb = Some prev" "prev \<noteq> 0"
    "\<not> ((lp - prev) / prev > 5 / 1000 \<and> get_sentiment s symb > 3 / 10)"
    "\<not> ((lp - prev) / prev < - (5 / 1000) \<and> get_sentiment s symb < - (3 / 10))"
  shows "generate_signal now symb lp s = Inr (None, s)"
  using assms
  by (auto simp: generate_signal_def Let_def PRICE_CHANGE_THRESHOLD_def SENTIMENT_THRESHOLD_def)

text \<open>
  C5. A MarketData event with a positive last price: for a symbol with no recorded
  price nothing is emitted; for a symbol with a recorded (positive) previous price a
  BUY signal is emitted exactly when the relative change is above 0.005 and the
  sentiment above 0.3, a SELL signal exactly when the change is below -0.005 and the
  sentiment below -0.3 (all comparisons strict), and nothing otherwise. In each case
  the recorded price of the symbol becomes the last price.
\<close>

theorem C5_signal_gating:
  assumes "0 < lp"
  shows "(last_prices s symb = None \<longrightarrow>
            process_market_data e \<lparr>md_symbol = symb, md_last_price = Some lp\<rparr> s
              = Inr (no_output, s\<lparr>last_prices := (last_prices s)(symb \<mapsto> lp)\<rparr>))
       \<and> (\<forall>prev. last_prices s symb = Some prev \<and> 0 < prev \<longrightarrow>
            (\<exists>out s'. process_market_data e \<lparr>md_symbol = symb, md_last_price = Some lp\<rparr> s = Inr (out, s')
               \<and> last_prices s' = (last_prices s)(symb \<mapsto> lp)
               \<and> ((\<exists>sg. em_signal out = Some sg \<and> sig_action sg = BUY)
                    \<longleftrightarrow> (lp - prev) / prev > 5 / 1000 \<and> get_sentiment s symb > 3 / 10)
               \<and> ((\<exists>sg. em_signal out = Some sg \<and> sig_action sg = SELL)
                    \<longleftrightarrow> (lp - prev) / prev < - (5 / 1000) \<and> get_sentiment s symb < - (3 / 10))
               \<and> (em_signal out = None
                    \<longleftrightarrow> \<not> ((lp - prev) / prev > 5 / 1000 \<and> get_sentiment s symb > 3 / 10)
                      \<and> \<not> ((lp - prev) / prev < - (5 / 1000) \<and> get_sentiment s symb < - (3 / 10)))
               \<and> em_order out =
                    (if send_ok e
                     then map_option (create_order (now_order_id e) (now_order e) (rand_quantity e))
                            (em_signal out)
                     else None)))"
proof (intro conjI impI allI)
  assume "last_prices s symb = None"
  then show "process_market_data e \<lparr>md_symbol = symb, md_last_price = Some lp\<rparr> s
              = Inr (no_output, s\<lparr>last_prices := (last_prices s)(symb \<mapsto> lp)\<rparr>)"
    using assms by (simp add: process_market_data_def generate_signal_first)
next
  fix prev
  assume "last_prices s symb = Some prev \<and> 0 < prev"
  then have p: "last_prices s symb = Some prev" "prev \<noteq> 0" by simp_all
  let ?buy = "(lp - prev) / prev > 5 / 1000 \<and> get_sentiment s symb > 3 / 10"
  let ?sell = "(lp - prev) / prev < - (5 / 1000) \<and> get_sentiment s symb < - (3 / 10)"
  consider (buy) ?buy | (sell) ?sell "\<not> ?buy" | (none) "\<not> ?buy" "\<not> ?sell" by blast
  then show "\<exists>out s'. process_market_data e \<lparr>md_symbol = symb, md_last_price = Some lp\<rparr> s = Inr (out, s')
               \<and> last_prices s' = (last_prices s)(symb \<mapsto> lp)
               \<and> ((\<exists>sg. em_signal out = Some sg \<and> sig_action sg = BUY) \<longleftrightarrow> ?buy)
               \<and> ((\<exists>sg. em_signal out = Some sg \<and> sig_action sg = SELL) \<longleftrightarrow> ?sell)
               \<and> (em_signal out = None \<longleftrightarrow> \<not> ?buy \<and> \<not> ?sell)
               \<and> em_order out =
                    (if send_ok e
                     then map_option (create_order (now_order_id e) (now_order e) (rand_quantity e))
                            (em_signal out)
                     else None)"
  proof cases
    case buy
    then have ns: "\<not> ?sell" by linarith
    show ?thesis
      using assms buy ns generate_signal_buy [OF p, of lp]
      by (simp add: process_market_data_def Let_def)
  next
    case sell
    show ?thesis
      using assms sell generate_signal_sell [OF p, of lp]
      by (simp add: process_market_data_def Let_def)
  next
    case none
    show ?thesis
      using assms none generate_signal_none [OF p, of lp]
      by (simp add: process_market_data_def Let_def no_output_def)
  qed
qed

theorem C5_signal_gating_witness:
  "(0::real) < 1006 / 10
   \<and> last_prices strategy1 AAPL = Some 100 \<and> (0::real) < 100
   \<and> (\<exists>out s'. process_market_data env0 \<lparr>md_symbol = AAPL, md_last_price = Some (1006 / 10)\<rparr> strategy1
          = Inr (out, s')
        \<and> last_prices s' AAPL = Some (1006 / 10)
        \<and> (\<exists>sg. em_signal out = Some sg \<and> sig_action sg = BUY))"
proof -
  have h: "(0::real) < 1006 / 10" by simp
  have p: "last_prices strategy1 AAPL = Some 100 \<and> (0::real) < 100"
    by (simp add: strategy1_def)
  have c: "(1006 / 10 - 100) / 100 > (5::real) / 1000 \<and> get_sentiment strategy1 AAPL > 3 / 10"
    by (simp add: strategy1_def get_sentiment_def)
  from C5_signal_gating [OF h, of strategy1 AAPL env0] p c
  obtain out s' where
    "process_market_data env0 \<lparr>md_symbol = AAPL, md_last_price = Some (1006 / 10)\<rparr> strategy1
          = Inr (out, s')"
    "last_prices s' = (last_prices strategy1)(AAPL \<mapsto> 1006 / 10)"
    "\<exists>sg. em_signal out = Some sg \<and> sig_action sg = BUY"
    by blast
  then show ?thesis using h p by auto
qed

text \<open>Every price the loop records is positive, so the division of
  \<open>generate_signal\<close> never fails in a state the loop reaches.\<close>

lemma process_market_data_prices_positive:
  assumes "prices_positive s" "process_market_data e d s = Inr (out, s')"
  shows "prices_positive s'"
  using assms
  by (auto simp: process_market_data_def prices_positive_def Let_def
      split: if_splits sum.splits option.splits prod.splits dest!: generate_signal_frame)

lemma strategy_step_prices_positive:
  assumes "prices_positive s"
  shows "prices_positive (snd (strategy_step e ev s))"
proof (cases ev)
  case (MarketData d)
  then show ?thesis
    using assms process_market_data_prices_positive [OF assms, of e d]
    by (cases "process_market_data e d s") (auto simp: strategy_step_def)
next
  case (NewsSentiment d)
  then show ?thesis
    using assms by (simp add: strategy_step_def process_news_def prices_positive_def Let_def)
qed (use assms in \<open>simp_all add: strategy_step_def\<close>)

lemma strategy_run_prices_positive:
  "prices_positive s \<Longrightarrow> prices_positive (strategy_run evs s)"
  by (induction evs s rule: strategy_run.induct) (simp_all add: strategy_step_prices_positive)

lemma strategy_run_init_prices_positive: "prices_positive (strategy_run evs strategy_init)"
  by (rule strategy_run_prices_positive) (simp add: prices_positive_def strategy_init_def)

section \<open>Order identifiers\<close>



section \<open>Properties of the order manager\<close>





end
